theory Spec2Isabelle
  imports Main "HOL-Library.AList"
begin

section \<open>C library calls used by ItemMapping.cpp\<close>

text \<open>
  \<^verbatim>\<open>std::isalpha\<close>, \<^verbatim>\<open>std::isdigit\<close> and \<^verbatim>\<open>std::isspace\<close> on an
  \<^verbatim>\<open>unsigned char\<close> in the "C" locale, by character code.
\<close>

definition isalpha :: "char \<Rightarrow> bool" where
  "isalpha c = (let n = (of_char c :: nat) in (65 \<le> n \<and> n \<le> 90) \<or> (97 \<le> n \<and> n \<le> 122))"

definition isdigit :: "char \<Rightarrow> bool" where
  "isdigit c = (let n = (of_char c :: nat) in 48 \<le> n \<and> n \<le> 57)"

definition isspace :: "char \<Rightarrow> bool" where
  "isspace c = (let n = (of_char c :: nat) in n = 32 \<or> (9 \<le> n \<and> n \<le> 13))"

definition INT_MAX :: int where
  "INT_MAX = 2147483647"

definition INT_MIN :: int where
  "INT_MIN = - 2147483648"

definition digits_value :: "string \<Rightarrow> int" where
  "digits_value ds = foldl (\<lambda>acc c. acc * 10 + (int (of_char c) - 48)) 0 ds"

text \<open>
  \<^verbatim>\<open>std::stoi(s)\<close>: leading white space is skipped, one sign is accepted, the longest
  run of decimal digits is converted. It throws \<^verbatim>\<open>std::invalid_argument\<close> when there
  is no digit and \<^verbatim>\<open>std::out_of_range\<close> when the value does not fit an \<^verbatim>\<open>int\<close>;
  both are the value \<open>None\<close> here.
\<close>

definition stoi :: "string \<Rightarrow> int option" where
  "stoi s =
     (let s1 = dropWhile isspace s;
          neg = (s1 \<noteq> [] \<and> hd s1 = CHR ''-'');
          s2 = (if s1 \<noteq> [] \<and> (hd s1 = CHR ''-'' \<or> hd s1 = CHR ''+'') then tl s1 else s1);
          ds = takeWhile isdigit s2
      in if ds = [] then None
         else let v = (if neg then - digits_value ds else digits_value ds)
              in if v < INT_MIN \<or> INT_MAX < v then None else Some v)"

definition digit_char :: "nat \<Rightarrow> char" where
  "digit_char d = char_of (48 + d)"

function to_string_nat :: "nat \<Rightarrow> string" where
  "to_string_nat n =
     (if n < 10 then [digit_char n] else to_string_nat (n div 10) @ [digit_char (n mod 10)])"
  by pat_completeness auto
termination
  by (relation "measure (\<lambda>n. n)") auto

text \<open>\<^verbatim>\<open>std::to_string(int)\<close>: the decimal digits, with a minus sign below zero.\<close>

definition to_string :: "int \<Rightarrow> string" where
  "to_string i = (if i < 0 then CHR ''-'' # to_string_nat (nat (- i)) else to_string_nat (nat i))"

section \<open>The identifier tables of ItemMapping.cpp\<close>

definition ALL_TETROMINOES :: "string list" where
  "ALL_TETROMINOES =
    [''DJ3'',  ''MT1'',  ''DZ1'',  ''DJ2'',  ''DJ1'',  ''ML1'',  ''DI1'',
     ''ML2'',  ''DL1'',  ''DZ2'',
     ''MT2'',  ''DZ3'',  ''NL1'',  ''MT3'',
     ''MZ1'',  ''MZ2'',  ''MT4'',  ''MT5'',
     ''NZ1'',  ''DI2'',  ''DT1'',  ''DT2'',  ''DL2'',
     ''DZ4'',  ''NL2'',  ''NL3'',  ''NZ2'',
     ''NL4'',  ''DL3'',  ''NT1'',  ''NO1'',  ''DT3'',
     ''ML3'',  ''MZ3'',  ''MS1'',  ''MT6'',  ''MT7'',
     ''NL5'',  ''MS2'',  ''MT8'',  ''MZ4'',
     ''MT9'',  ''MJ1'',  ''NT2'',  ''NL6'',
     ''NT3'',  ''NT4'',  ''DT4'',  ''DJ4'',  ''NL7'',  ''NL8'',
     ''NI1'',  ''NL9'',  ''NS1'',  ''DJ5'',  ''NZ3'',
     ''NI2'',  ''MT10'', ''ML4'',
     ''NJ1'',  ''NI3'',  ''MO1'',  ''MI1'',
     ''NZ4'',  ''NJ2'',  ''NI4'',  ''NT5'',
     ''NZ5'',  ''NO2'',  ''NT6'',  ''NS2'',
     ''NJ3'',  ''NO3'',  ''NZ6'',  ''NT7'',
     ''NT8'',  ''NI5'',  ''NS3'',  ''NT9'',
     ''NI6'',  ''NO4'',  ''NO5'',  ''NT10'',
     ''NS4'',  ''NJ4'',  ''NO6'',
     ''NT11'', ''NO7'',  ''NT12'', ''NL10'']"

definition ALL_PURPLE_SIGILS :: "string list" where
  "ALL_PURPLE_SIGILS =
    [''HL1'',  ''HL2'',  ''HL3'',  ''HL4'',  ''HL5'',  ''HL6'',
     ''HL7'',  ''HL8'',  ''HL9'',  ''HL10'', ''HL11'', ''HL12'',
     ''HL13'', ''HL14'', ''HL15'', ''HL16'', ''HL17'', ''HL18'',
     ''HL19'', ''HL20'', ''HL21'', ''HL22'', ''HL23'', ''HL24'']"

definition ALL_STARS :: "string list" where
  "ALL_STARS =
    [''SL5'',  ''SL2'',  ''SZ3'',  ''SL1'',  ''SL4'',  ''SL7'',
     ''SL6'',  ''SZ8'',  ''SL9'',  ''SL10'', ''SL11'', ''SL12'',
     ''SL13'', ''SZ24'', ''SZ14'', ''SZ15'', ''SL16'', ''SL17'',
     ''SL18'', ''SL19'', ''SL20'', ''SL21'', ''SL22'', ''SL23'',
     ''SL27'', ''SL29'', ''SL30'', ''SZ26'', ''SL25'', ''SL28'']"

text \<open>The initialiser of \<^verbatim>\<open>m_apItemIdToPrefix\<close> in the constructor.\<close>

definition AP_ITEM_ID_TO_PREFIX :: "(int \<times> string) list" where
  "AP_ITEM_ID_TO_PREFIX =
    [(0x540000, ''DJ''), (0x540001, ''DZ''), (0x540002, ''DI''), (0x540003, ''DL''),
     (0x540004, ''DT''), (0x540005, ''MT''), (0x540006, ''ML''), (0x540007, ''MZ''),
     (0x540008, ''MS''), (0x540009, ''MJ''), (0x54000A, ''MO''), (0x54000B, ''MI''),
     (0x54000C, ''NL''), (0x54000D, ''NZ''), (0x54000E, ''NT''), (0x54000F, ''NI''),
     (0x540010, ''NJ''), (0x540011, ''NO''), (0x540012, ''NS''), (0x540013, ''HL''),
     (0x540014, ''**'')]"

definition BASE_LOCATION_ID :: int where
  "BASE_LOCATION_ID = 0x540000"

section \<open>ItemMapping\<close>

text \<open>
  The \<^verbatim>\<open>std::unordered_map\<close> members are association lists read with \<^const>\<open>map_of\<close>
  and written with \<^const>\<open>AList.update\<close> (\<^verbatim>\<open>m[k] = v\<close>). The members that only feed
  display strings and the reverse location table are left out.
\<close>

record ItemMapping =
  apItemIdToPrefix :: "(int \<times> string) list"
  tetrominoSequences :: "(string \<times> string list) list"
  locationNameToId :: "(string \<times> int) list"
  receivedCounts :: "(string \<times> int) list"
  modIdToGameKey :: "(string \<times> string) list"
  gameKeyToModId :: "(string \<times> string) list"

definition ExtractPrefix :: "string \<Rightarrow> string" where
  "ExtractPrefix tetId = takeWhile isalpha tetId"

text \<open>\<open>None\<close> is the exception of \<^verbatim>\<open>std::stoi\<close>.\<close>

definition ExtractNumber :: "string \<Rightarrow> int option" where
  "ExtractNumber tetId =
     (let rest = dropWhile isalpha tetId in if rest \<noteq> [] then stoi rest else Some 0)"

definition addSequences ::
  "string list \<Rightarrow> (string \<times> string list) list \<Rightarrow> (string \<times> string list) list" where
  "addSequences ids m =
     fold (\<lambda>tetId m.
             let prefix = ExtractPrefix tetId
             in if prefix \<noteq> []
                then AList.update prefix
                       ((case map_of m prefix of None \<Rightarrow> [] | Some s \<Rightarrow> s) @ [tetId]) m
                else m)
          ids m"

text \<open>
  \<^verbatim>\<open>std::sort\<close> with the comparator \<^verbatim>\<open>ExtractNumber(a) < ExtractNumber(b)\<close>. A
  sequence of fewer than two elements is never compared; otherwise every element is, and an
  exception of \<^verbatim>\<open>ExtractNumber\<close> leaves the sort (\<open>None\<close>). \<^verbatim>\<open>std::sort\<close> is not
  stable; the result is still determined when the numbers of a sequence are pairwise
  different, which lemma \<open>Registry_numbers_distinct\<close> below shows for every sequence built.
\<close>

definition sort_by_number :: "string list \<Rightarrow> string list option" where
  "sort_by_number seq =
     (if length seq \<le> 1 then Some seq
      else case those (map ExtractNumber seq) of
             None \<Rightarrow> None
           | Some ks \<Rightarrow> Some (map snd (sort_key fst (zip ks seq))))"

definition star_sequence :: "string list" where
  "star_sequence = map (\<lambda>i. ''**'' @ to_string (int i)) [1 ..< Suc (length ALL_STARS)]"

definition BuildSequences :: "(string \<times> string list) list option" where
  "BuildSequences =
     (let m = addSequences ALL_PURPLE_SIGILS (addSequences ALL_TETROMINOES [])
      in case those (map (\<lambda>(prefix, seq). map_option (Pair prefix) (sort_by_number seq)) m) of
           None \<Rightarrow> None
         | Some sorted_m \<Rightarrow> Some (AList.update ''**'' star_sequence sorted_m))"

text \<open>The three location loops of \<^verbatim>\<open>BuildTables\<close>, sharing the running index.\<close>

definition add_locations ::
  "string list \<Rightarrow> (string \<times> int) list \<times> int \<Rightarrow> (string \<times> int) list \<times> int" where
  "add_locations ids acc =
     fold (\<lambda>tetId (m, idx). (AList.update tetId (BASE_LOCATION_ID + idx) m, idx + 1)) ids acc"

definition BuildLocations :: "(string \<times> int) list" where
  "BuildLocations =
     fst (add_locations ALL_STARS
           (add_locations ALL_PURPLE_SIGILS (add_locations ALL_TETROMINOES ([], 0))))"

definition BuildGameKeyMappings ::
  "((string \<times> string) list \<times> (string \<times> string) list) option" where
  "BuildGameKeyMappings =
     fold (\<lambda>starId acc.
             case acc of
               None \<Rightarrow> None
             | Some (m2g, g2m) \<Rightarrow>
                 (case ExtractNumber starId of
                    None \<Rightarrow> None
                  | Some num \<Rightarrow>
                      let gameKey = ''**'' @ to_string num
                      in Some (AList.update starId gameKey m2g, AList.update gameKey starId g2m)))
          ALL_STARS (Some ([], []))"

text \<open>The constructor; \<open>None\<close> when building the tables throws.\<close>

definition ItemMapping_ctor :: "ItemMapping option" where
  "ItemMapping_ctor =
     (case BuildSequences of
        None \<Rightarrow> None
      | Some seqs \<Rightarrow>
          (case BuildGameKeyMappings of
             None \<Rightarrow> None
           | Some (m2g, g2m) \<Rightarrow>
               Some \<lparr> apItemIdToPrefix = AP_ITEM_ID_TO_PREFIX,
                      tetrominoSequences = seqs,
                      locationNameToId = BuildLocations,
                      receivedCounts = [],
                      modIdToGameKey = m2g,
                      gameKeyToModId = g2m \<rparr>))"

text \<open>The registry the program works with: the object the constructor returns.\<close>

definition Registry :: ItemMapping where
  "Registry = the ItemMapping_ctor"

text \<open>
  Undefined behaviour of the C++ is a value of its own: incrementing an \<^verbatim>\<open>int\<close> that
  holds \<^verbatim>\<open>INT_MAX\<close>, and indexing a vector outside its bounds.
\<close>

datatype cpp_error = SignedOverflow | IndexOutOfRange

text \<open>
  What \<^verbatim>\<open>m_receivedCounts[prefix]\<close> reads: the entry, created with 0 when it is missing.
\<close>

definition received_count :: "ItemMapping \<Rightarrow> string \<Rightarrow> int" where
  "received_count im prefix =
     (case map_of (receivedCounts im) prefix of None \<Rightarrow> 0 | Some c \<Rightarrow> c)"

text \<open>
  \<^verbatim>\<open>ResolveNextItem\<close> returns the \<^verbatim>\<open>std::optional\<close> and the updated object.
\<close>

definition ResolveNextItem ::
  "ItemMapping \<Rightarrow> int \<Rightarrow> cpp_error + (string option \<times> ItemMapping)" where
  "ResolveNextItem im apItemId =
     (case map_of (apItemIdToPrefix im) apItemId of
        None \<Rightarrow> Inr (None, im)
      | Some prefix \<Rightarrow>
          (case map_of (tetrominoSequences im) prefix of
             None \<Rightarrow> Inr (None, im)
           | Some seq \<Rightarrow>
               if seq = [] then Inr (None, im)
               else
                 let old = received_count im prefix
                 in if INT_MAX \<le> old then Inl SignedOverflow
                    else
                      let count = old + 1;
                          im' = im\<lparr>receivedCounts := AList.update prefix count (receivedCounts im)\<rparr>
                      in if count > int (length seq) then Inr (None, im')
                         else if count - 1 < 0 then Inl IndexOutOfRange
                         else Inr (Some (seq ! nat (count - 1)), im')))"

definition ResetItemCounters :: "ItemMapping \<Rightarrow> ItemMapping" where
  "ResetItemCounters im = im\<lparr>receivedCounts := []\<rparr>"

text \<open>
  Consecutive grants of one item ID: the results of \<open>n\<close> calls in order, and the object
  after them.
\<close>

fun resolve_times ::
  "nat \<Rightarrow> ItemMapping \<Rightarrow> int \<Rightarrow> cpp_error + (string option list \<times> ItemMapping)" where
  "resolve_times 0 im apItemId = Inr ([], im)"
| "resolve_times (Suc n) im apItemId =
     (case ResolveNextItem im apItemId of
        Inl e \<Rightarrow> Inl e
      | Inr (r, im') \<Rightarrow>
          (case resolve_times n im' apItemId of
             Inl e \<Rightarrow> Inl e
           | Inr (rs, im'') \<Rightarrow> Inr (r # rs, im'')))"

text \<open>
  Grants of several item IDs, one call each in the order of the list: the results in that
  order, and the object after them.
\<close>

fun resolve_all ::
  "ItemMapping \<Rightarrow> int list \<Rightarrow> cpp_error + (string option list \<times> ItemMapping)" where
  "resolve_all im [] = Inr ([], im)"
| "resolve_all im (apItemId # rest) =
     (case ResolveNextItem im apItemId of
        Inl e \<Rightarrow> Inl e
      | Inr (r, im') \<Rightarrow>
          (case resolve_all im' rest of
             Inl e \<Rightarrow> Inl e
           | Inr (rs, im'') \<Rightarrow> Inr (r # rs, im'')))"

text \<open>The values the \<open>n\<close> calls return, without the object.\<close>

definition resolutions :: "nat \<Rightarrow> ItemMapping \<Rightarrow> int \<Rightarrow> cpp_error + string option list" where
  "resolutions n im apItemId =
     (case resolve_times n im apItemId of Inl e \<Rightarrow> Inl e | Inr (rs, im') \<Rightarrow> Inr rs)"

definition GetLocationId :: "ItemMapping \<Rightarrow> string \<Rightarrow> int" where
  "GetLocationId im tetrominoId =
     (case map_of (locationNameToId im) tetrominoId of Some locId \<Rightarrow> locId | None \<Rightarrow> - 1)"

definition IsPurpleSigil :: "string \<Rightarrow> bool" where
  "IsPurpleSigil ident = (length ident \<ge> 3 \<and> ident ! 0 = CHR ''H'' \<and> ident ! 1 = CHR ''L'')"

definition IsStar :: "string \<Rightarrow> bool" where
  "IsStar ident =
     (if length ident < 3 then False
      else if ident ! 0 = CHR ''*'' \<and> ident ! 1 = CHR ''*'' then True
      else if ident ! 0 = CHR ''S'' \<and> (ident ! 1 = CHR ''L'' \<or> ident ! 1 = CHR ''Z'') then True
      else False)"

definition ToGameKey :: "ItemMapping \<Rightarrow> string \<Rightarrow> string" where
  "ToGameKey im modId =
     (case map_of (modIdToGameKey im) modId of Some gameKey \<Rightarrow> gameKey | None \<Rightarrow> modId)"

definition FromGameKey :: "ItemMapping \<Rightarrow> string \<Rightarrow> string" where
  "FromGameKey im gameKey =
     (case map_of (gameKeyToModId im) gameKey of Some modId \<Rightarrow> modId | None \<Rightarrow> gameKey)"

section \<open>ModState and InventorySync\<close>

text \<open>
  The \<^verbatim>\<open>CollectedTetrominos\<close> map of the game's progress object,
  \<^verbatim>\<open>TMap<FString, bool>\<close>: the entries in iteration order, each key with its "used"
  flag. A key is held as the narrow string \<^verbatim>\<open>FromFString\<close> reads from it: the game's
  keys are made of a type letter, a shape letter and a number (or \<open>**\<close> and a number), all
  7-bit characters, for which \<^verbatim>\<open>ToFString\<close> gives the key back. \<^verbatim>\<open>Find\<close> is
  \<^const>\<open>map_of\<close>, \<^verbatim>\<open>Remove\<close> is \<^const>\<open>AList.delete\<close>, and \<^verbatim>\<open>Add\<close> of a key
  that \<^verbatim>\<open>Find\<close> did not find appends the entry. These operations do not throw, so the
  \<^verbatim>\<open>catch\<close> blocks around them are never entered.
\<close>

type_synonym TetrominoMap = "(string \<times> bool) list"

text \<open>
  Modelled from the spec: the header ModState.h is not among the sources. The fields are
  the ones InventorySync.cpp, DeathLinkHandler.cpp and ModCore.cpp read and write, with the
  spec's Session State for their meaning: \<open>GrantedItems\<close> and \<open>CheckedLocations\<close> are the
  sets Granted and Checked, kept as the list of their elements in iteration order;
  \<open>CurrentProgress\<close> is the progress pointer together with the map it gives access to,
  \<open>None\<close> when the pointer is null or the map cannot be read.
\<close>

record ModState =
  GrantedItems :: "string list"
  CheckedLocations :: "string list"
  CurrentProgress :: "TetrominoMap option"
  APSynced :: bool
  RandomisePurpleSigils :: bool
  RandomiseStars :: bool
  ReusableTetrominos :: bool
  DeathLinkEnabled :: bool
  IsDeathLinkDeath :: bool
  PendingDeathLinkSend :: bool
  PendingDeathLinkReceive :: bool
  PendingDeferredDeathLink :: bool
  DeathLinkSource :: string
  DeathLinkCause :: string

text \<open>\<^verbatim>\<open>RefreshUI\<close> has an empty body, so \<^verbatim>\<open>GrantItem\<close> only inserts into the set.\<close>

definition GrantItem :: "ModState \<Rightarrow> string \<Rightarrow> ModState" where
  "GrantItem state tetrominoId =
     (let wasNew = (tetrominoId \<notin> set (GrantedItems state))
      in if wasNew then state\<lparr>GrantedItems := GrantedItems state @ [tetrominoId]\<rparr> else state)"

definition RevokeItem :: "ModState \<Rightarrow> string \<Rightarrow> ModState" where
  "RevokeItem state tetrominoId =
     state\<lparr>GrantedItems := removeAll tetrominoId (GrantedItems state),
           CheckedLocations := removeAll tetrominoId (CheckedLocations state)\<rparr>"

text \<open>The writes that \<^verbatim>\<open>EnforceCollectionState\<close> performs on the map, in order.\<close>

datatype store_op = Remove string | Add string bool | SetUsed string bool

text \<open>
  The body of the first loop for one key: \<open>True\<close> when the key is pushed onto
  \<^verbatim>\<open>toRemoveGameKeys\<close>.
\<close>

definition to_remove :: "ModState \<Rightarrow> ItemMapping \<Rightarrow> string \<Rightarrow> bool" where
  "to_remove state itemMapping gameKey =
     (if gameKey = [] then False
      else
        let modId = FromGameKey itemMapping gameKey
        in if GetLocationId itemMapping modId < 0 then False
           else if \<not> RandomisePurpleSigils state \<and> IsPurpleSigil modId then False
           else if \<not> RandomiseStars state \<and> IsStar modId then False
           else
             let lookupKey = (if IsStar modId then gameKey else modId)
             in lookupKey \<notin> set (GrantedItems state))"

definition toRemoveGameKeys :: "ModState \<Rightarrow> ItemMapping \<Rightarrow> TetrominoMap \<Rightarrow> string list" where
  "toRemoveGameKeys state itemMapping tmap = filter (to_remove state itemMapping) (map fst tmap)"

definition remove_keys :: "string list \<Rightarrow> TetrominoMap \<Rightarrow> TetrominoMap \<times> store_op list" where
  "remove_keys gks tmap =
     fold (\<lambda>gk (m, ops). (AList.delete gk m, ops @ [Remove gk])) gks (tmap, [])"

text \<open>The body of the second loop for one granted ID.\<close>

definition ensure_granted ::
  "ItemMapping \<Rightarrow> string \<Rightarrow> TetrominoMap \<times> store_op list
     \<Rightarrow> TetrominoMap \<times> store_op list" where
  "ensure_granted itemMapping ident acc =
     (let (m, ops) = acc;
          gameKey = ToGameKey itemMapping ident
      in if map_of m gameKey = None
         then (m @ [(gameKey, False)], ops @ [Add gameKey False])
         else (m, ops))"

definition add_granted ::
  "ItemMapping \<Rightarrow> string list \<Rightarrow> TetrominoMap \<Rightarrow> TetrominoMap \<times> store_op list" where
  "add_granted itemMapping granted tmap = fold (ensure_granted itemMapping) granted (tmap, [])"

definition reset_used :: "TetrominoMap \<Rightarrow> TetrominoMap \<times> store_op list" where
  "reset_used tmap =
     (map (\<lambda>(k, v). (k, if v then False else v)) tmap,
      map (\<lambda>(k, v). SetUsed k False) (filter snd tmap))"

definition EnforceCollectionState ::
  "ModState \<Rightarrow> ItemMapping \<Rightarrow> ModState \<times> store_op list" where
  "EnforceCollectionState state itemMapping =
     (case CurrentProgress state of
        None \<Rightarrow> (state, [])
      | Some tmap \<Rightarrow>
          if \<not> APSynced state then (state, [])
          else
            let (tmap1, ops1) = remove_keys (toRemoveGameKeys state itemMapping tmap) tmap;
                (tmap2, ops2) = add_granted itemMapping (GrantedItems state) tmap1;
                (tmap3, ops3) = (if ReusableTetrominos state then reset_used tmap2 else (tmap2, []))
            in (state\<lparr>CurrentProgress := Some tmap3\<rparr>, ops1 @ ops2 @ ops3))"

text \<open>
  What \<^verbatim>\<open>tmap->Find(key)\<close> gives on the map of the state's progress object: the "used"
  flag of the entry, \<open>None\<close> when there is no entry (or no map).
\<close>

definition stored :: "ModState \<Rightarrow> string \<Rightarrow> bool option" where
  "stored state key = (case CurrentProgress state of None \<Rightarrow> None | Some tmap \<Rightarrow> map_of tmap key)"

section \<open>DeathLinkHandler\<close>

text \<open>
  The callback that \<^verbatim>\<open>RegisterHooks\<close> installs on \<^verbatim>\<open>TalosCharacter:SetDeath\<close> (the
  fallback on \<^verbatim>\<open>OnTalosPlayerDied_Event\<close> has the same body): one call per local death.
\<close>

definition SetDeath_hook :: "ModState \<Rightarrow> ModState" where
  "SetDeath_hook st =
     (if \<not> DeathLinkEnabled st then st
      else if IsDeathLinkDeath st then st\<lparr>IsDeathLinkDeath := False\<rparr>
      else st\<lparr>PendingDeathLinkSend := True\<rparr>)"

text \<open>
  What \<^verbatim>\<open>ProcessPendingDeathLink\<close> finds in the game world when it runs: whether the
  player controller and its pawn are found, whether the pawn reads as dead, whether its
  position can be read, whether an actor of one of the two mine classes exists, whether
  \<^verbatim>\<open>TeleportMineTo\<close> returns true, and whether a HUD object was passed.
\<close>

record DeathLinkWorld =
  pawnFound :: bool
  pawnIsDead :: bool
  haveLocation :: bool
  mineFound :: bool
  teleportOk :: bool
  hudPresent :: bool

datatype hud_notification = DeathIsComing | CauseText string | KilledYou string

definition ProcessPendingDeathLink ::
  "ModState \<Rightarrow> DeathLinkWorld \<Rightarrow> ModState \<times> hud_notification list" where
  "ProcessPendingDeathLink state w =
     (if \<not> PendingDeathLinkReceive state then (state, [])
      else
        let st1 = state\<lparr>PendingDeathLinkReceive := False\<rparr>
        in if \<not> pawnFound w then (st1, [])
           else if pawnIsDead w then (st1, [])
           else
             let mine = (haveLocation w \<and> mineFound w);
                 killed = (mine \<and> haveLocation w \<and> teleportOk w);
                 st2 = (if mine \<and> haveLocation w
                        then (let s = st1\<lparr>IsDeathLinkDeath := True\<rparr>
                              in if \<not> killed then s\<lparr>IsDeathLinkDeath := False\<rparr> else s)
                        else st1)
             in if \<not> killed
                then (st2\<lparr>PendingDeferredDeathLink := True\<rparr>,
                      if hudPresent w \<and> \<not> PendingDeferredDeathLink st2 then [DeathIsComing] else [])
                else (st2,
                      if hudPresent w
                      then (if DeathLinkCause st2 \<noteq> [] then [CauseText (DeathLinkCause st2)]
                            else [KilledYou (DeathLinkSource st2)])
                      else []))"

text \<open>
  \<^verbatim>\<open>ModCore::ProcessDeathLinks\<close>, once per tick: the inbound death first, then the
  outbound flag is drained. The second component tells whether \<^verbatim>\<open>SendDeathLink\<close> was
  called; \<open>apClient\<close> tells whether the client object exists.
\<close>

definition ProcessDeathLinks ::
  "bool \<Rightarrow> ModState \<Rightarrow> DeathLinkWorld \<Rightarrow> ModState \<times> bool \<times> hud_notification list" where
  "ProcessDeathLinks apClient state w =
     (let (st1, notes) = (if DeathLinkEnabled state then ProcessPendingDeathLink state w
                          else (state, []))
      in if PendingDeathLinkSend st1
         then (st1\<lparr>PendingDeathLinkSend := False\<rparr>, apClient \<and> DeathLinkEnabled st1, notes)
         else (st1, False, notes))"

text \<open>
  What happens to the state between two deaths that the hook sees: ticks of \<^verbatim>\<open>ModCore\<close>,
  of which \<^verbatim>\<open>ProcessDeathLinks\<close> is the step that runs the handler and drains the outbound
  flag, and writes made by code elsewhere (the network side storing an inbound link, the
  re-arming of a deferred link when a level transition ends, the inventory functions), each
  given as the function it applies to the state.
\<close>

datatype link_event = Tick bool DeathLinkWorld | Elsewhere "ModState \<Rightarrow> ModState"

fun link_events :: "ModState \<Rightarrow> link_event list \<Rightarrow> ModState" where
  "link_events st [] = st"
| "link_events st (Tick apClient w # es) = link_events (fst (ProcessDeathLinks apClient st w)) es"
| "link_events st (Elsewhere f # es) = link_events (f st) es"

text \<open>
  The schedules on which a suppress flag that is set stays set until the hook runs. Besides
  the hook, the one statement that clears \<^verbatim>\<open>IsDeathLinkDeath\<close> is in
  \<^verbatim>\<open>ProcessPendingDeathLink\<close>, on the path where a pending inbound link finds a living
  player and a mine and \<^verbatim>\<open>TeleportMineTo\<close> does not return true: no tick of the schedule
  takes that path. The writes made elsewhere leave \<^verbatim>\<open>DeathLinkEnabled\<close>,
  \<^verbatim>\<open>IsDeathLinkDeath\<close> and \<^verbatim>\<open>PendingDeathLinkSend\<close> as they are: in the sources the last
  two are written by the handler and by \<^verbatim>\<open>ProcessDeathLinks\<close> only, and the first by none.
\<close>

fun flag_undisturbed :: "ModState \<Rightarrow> link_event list \<Rightarrow> bool" where
  "flag_undisturbed st [] = True"
| "flag_undisturbed st (Tick apClient w # es) =
     (\<not> (DeathLinkEnabled st \<and> PendingDeathLinkReceive st \<and> pawnFound w \<and> \<not> pawnIsDead w \<and>
         haveLocation w \<and> mineFound w \<and> \<not> teleportOk w) \<and>
      flag_undisturbed (fst (ProcessDeathLinks apClient st w)) es)"
| "flag_undisturbed st (Elsewhere f # es) =
     (DeathLinkEnabled (f st) = DeathLinkEnabled st \<and>
      IsDeathLinkDeath (f st) = IsDeathLinkDeath st \<and>
      PendingDeathLinkSend (f st) = PendingDeathLinkSend st \<and>
      flag_undisturbed (f st) es)"

section \<open>The visibility loop of main.lua\<close>

text \<open>
  An actor returned by \<^verbatim>\<open>FindAllOf("BP_TetrominoItem_C")\<close>: its identity, what
  \<^verbatim>\<open>item:IsValid()\<close> answers and what \<^verbatim>\<open>TetrominoUtils.GetTetrominoId(item)\<close>
  returns (\<open>None\<close> for \<^verbatim>\<open>nil\<close>).
\<close>

record TetrominoItem =
  item_handle :: nat
  item_IsValid :: bool
  item_id :: "string option"

text \<open>The two values the table \<^verbatim>\<open>VisibilityApplied\<close> holds, "visible" and "hidden".\<close>

datatype presentation = Visible | Hidden

datatype presentation_call = SetTetrominoVisible TetrominoItem | SetTetrominoHidden TetrominoItem

text \<open>
  The module lib/collection.lua, which the loop asks about every ID, is not among the
  sources. Its three queries are inputs of the loop: what \<^verbatim>\<open>ShouldBeCollectable\<close>,
  \<^verbatim>\<open>IsLocationChecked\<close> and \<^verbatim>\<open>IsGranted\<close> answer during one iteration.
\<close>

record Collection =
  ShouldBeCollectable :: "string \<Rightarrow> bool"
  IsLocationChecked :: "string \<Rightarrow> bool"
  IsGranted :: "string \<Rightarrow> bool"

text \<open>
  What the loop keeps and changes: its table \<^verbatim>\<open>VisibilityApplied\<close> and, through
  \<^verbatim>\<open>State.CurrentProgress\<close>, the collected-tetromino map (\<open>None\<close> when the progress
  object is missing or invalid). The table is a \<^verbatim>\<open>local\<close> declared just above the loop;
  the functions further up in main.lua that assign to \<^verbatim>\<open>VisibilityApplied\<close> were compiled
  before that declaration, so they write a global variable of the same name and never reach
  the table the loop reads.
\<close>

record VisibilityLoop =
  VisibilityApplied :: "string \<rightharpoonup> presentation"
  CollectedTetrominos :: "TetrominoMap option"

text \<open>The body of the \<^verbatim>\<open>for\<close> loop for one actor.\<close>

definition visit_item ::
  "Collection \<Rightarrow> TetrominoItem \<Rightarrow> VisibilityLoop \<times> presentation_call list
     \<Rightarrow> VisibilityLoop \<times> presentation_call list" where
  "visit_item coll item acc =
     (let (vs, calls) = acc
      in if \<not> item_IsValid item then (vs, calls)
         else case item_id item of
                None \<Rightarrow> (vs, calls)
              | Some ident \<Rightarrow>
                  if ShouldBeCollectable coll ident
                  then
                    let vs1 = vs\<lparr>CollectedTetrominos :=
                                   map_option (AList.delete ident) (CollectedTetrominos vs)\<rparr>
                    in if VisibilityApplied vs1 ident \<noteq> Some Visible
                       then (vs1\<lparr>VisibilityApplied := (VisibilityApplied vs1)(ident \<mapsto> Visible)\<rparr>,
                             calls @ [SetTetrominoVisible item])
                       else (vs1, calls)
                  else if IsLocationChecked coll ident \<and> \<not> IsGranted coll ident
                  then
                    if VisibilityApplied vs ident \<noteq> Some Hidden
                    then (vs\<lparr>VisibilityApplied := (VisibilityApplied vs)(ident \<mapsto> Hidden)\<rparr>,
                          calls @ [SetTetrominoHidden item])
                    else (vs, calls)
                  else (vs, calls))"

text \<open>
  One run of the function given to \<^verbatim>\<open>LoopAsync(10, ...)\<close>: the transition cooldown,
  the collection state and the actors found are its inputs.
\<close>

definition visibility_iteration ::
  "int \<Rightarrow> Collection \<Rightarrow> TetrominoItem list \<Rightarrow> VisibilityLoop
     \<Rightarrow> VisibilityLoop \<times> presentation_call list" where
  "visibility_iteration cooldown coll items vs =
     (if cooldown > 0 then (vs, []) else fold (visit_item coll) items (vs, []))"

text \<open>Consecutive iterations, each with its own inputs; the calls of all of them in order.\<close>

fun visibility_iterations ::
  "(int \<times> Collection \<times> TetrominoItem list) list \<Rightarrow> VisibilityLoop
     \<Rightarrow> VisibilityLoop \<times> presentation_call list" where
  "visibility_iterations [] vs = (vs, [])"
| "visibility_iterations ((cooldown, coll, items) # rest) vs =
     (let (vs1, calls1) = visibility_iteration cooldown coll items vs;
          (vs2, calls2) = visibility_iterations rest vs1
      in (vs2, calls1 @ calls2))"

text \<open>
  The presentation the loop aims at for an ID: the branch its \<^verbatim>\<open>if\<close> chain takes.
\<close>

definition target_presentation :: "Collection \<Rightarrow> string \<Rightarrow> presentation option" where
  "target_presentation coll ident =
     (if ShouldBeCollectable coll ident then Some Visible
      else if IsLocationChecked coll ident \<and> \<not> IsGranted coll ident then Some Hidden
      else None)"

fun call_item :: "presentation_call \<Rightarrow> TetrominoItem" where
  "call_item (SetTetrominoVisible item) = item"
| "call_item (SetTetrominoHidden item) = item"

definition calls_for :: "string \<Rightarrow> presentation_call list \<Rightarrow> presentation_call list" where
  "calls_for ident calls = filter (\<lambda>c. item_id (call_item c) = Some ident) calls"

section \<open>Sample inputs\<close>

text \<open>
  The states at which the theorems below are instantiated: a synced session with all item
  categories randomised, given by its granted IDs, the content of the collected-tetromino
  map and the reusable-tetromino option; and a session given by its four death-link flags.
\<close>

abbreviation synced_session :: "string list \<Rightarrow> TetrominoMap \<Rightarrow> bool \<Rightarrow> ModState" where
  "synced_session granted tmap reusable \<equiv>
     \<lparr>GrantedItems = granted, CheckedLocations = [], CurrentProgress = Some tmap,
      APSynced = True, RandomisePurpleSigils = True, RandomiseStars = True,
      ReusableTetrominos = reusable, DeathLinkEnabled = True, IsDeathLinkDeath = False,
      PendingDeathLinkSend = False, PendingDeathLinkReceive = False,
      PendingDeferredDeathLink = False, DeathLinkSource = [], DeathLinkCause = []\<rparr>"

abbreviation link_session :: "bool \<Rightarrow> bool \<Rightarrow> bool \<Rightarrow> bool \<Rightarrow> ModState" where
  "link_session enabled suppress send receive \<equiv>
     \<lparr>GrantedItems = [], CheckedLocations = [], CurrentProgress = None,
      APSynced = True, RandomisePurpleSigils = True, RandomiseStars = True,
      ReusableTetrominos = False, DeathLinkEnabled = enabled, IsDeathLinkDeath = suppress,
      PendingDeathLinkSend = send, PendingDeathLinkReceive = receive,
      PendingDeferredDeathLink = False, DeathLinkSource = ''Alice'', DeathLinkCause = []\<rparr>"

text \<open>
  For the visibility loop: a collection state in which every ID is collectable, one valid
  actor carrying the ID DJ1, and the loop before its first iteration.
\<close>

abbreviation all_collectable :: Collection where
  "all_collectable \<equiv>
     \<lparr>ShouldBeCollectable = (\<lambda>ident. True), IsLocationChecked = (\<lambda>ident. False),
      IsGranted = (\<lambda>ident. False)\<rparr>"

abbreviation actor_DJ1 :: TetrominoItem where
  "actor_DJ1 \<equiv> \<lparr>item_handle = 1, item_IsValid = True, item_id = Some ''DJ1''\<rparr>"

abbreviation fresh_loop :: VisibilityLoop where
  "fresh_loop \<equiv> \<lparr>VisibilityApplied = Map.empty, CollectedTetrominos = None\<rparr>"

text \<open>
  A world in which a delivered death can be enacted, one in which the mine is found but
  cannot be moved, and one in which the player is dead.
\<close>

abbreviation mine_at_hand :: DeathLinkWorld where
  "mine_at_hand \<equiv>
     \<lparr>pawnFound = True, pawnIsDead = False, haveLocation = True, mineFound = True,
      teleportOk = True, hudPresent = True\<rparr>"

abbreviation mine_stuck :: DeathLinkWorld where
  "mine_stuck \<equiv>
     \<lparr>pawnFound = True, pawnIsDead = False, haveLocation = True, mineFound = True,
      teleportOk = False, hudPresent = True\<rparr>"

abbreviation player_dead :: DeathLinkWorld where
  "player_dead \<equiv>
     \<lparr>pawnFound = True, pawnIsDead = True, haveLocation = True, mineFound = True,
      teleportOk = True, hudPresent = True\<rparr>"

text \<open>
  After a delivery: a second link arrives and is delivered as well, and one more tick passes.
\<close>

abbreviation second_link :: "link_event list" where
  "second_link \<equiv>
     [Elsewhere (\<lambda>st. st\<lparr>PendingDeathLinkReceive := True\<rparr>), Tick True mine_at_hand,
      Tick True player_dead]"

section \<open>The registry the constructor builds\<close>



lemma BuildSequences_eval:
  "BuildSequences = Some
    [(''DJ'', [''DJ1'', ''DJ2'', ''DJ3'', ''DJ4'', ''DJ5'']),
     (''MT'', [''MT1'', ''MT2'', ''MT3'', ''MT4'', ''MT5'', ''MT6'', ''MT7'', ''MT8'', ''MT9'',
               ''MT10'']),
     (''DZ'', [''DZ1'', ''DZ2'', ''DZ3'', ''DZ4'']),
     (''ML'', [''ML1'', ''ML2'', ''ML3'', ''ML4'']),
     (''DI'', [''DI1'', ''DI2'']),
     (''DL'', [''DL1'', ''DL2'', ''DL3'']),
     (''NL'', [''NL1'', ''NL2'', ''NL3'', ''NL4'', ''NL5'', ''NL6'', ''NL7'', ''NL8'', ''NL9'',
               ''NL10'']),
     (''MZ'', [''MZ1'', ''MZ2'', ''MZ3'', ''MZ4'']),
     (''NZ'', [''NZ1'', ''NZ2'', ''NZ3'', ''NZ4'', ''NZ5'', ''NZ6'']),
     (''DT'', [''DT1'', ''DT2'', ''DT3'', ''DT4'']),
     (''NT'', [''NT1'', ''NT2'', ''NT3'', ''NT4'', ''NT5'', ''NT6'', ''NT7'', ''NT8'', ''NT9'',
               ''NT10'', ''NT11'', ''NT12'']),
     (''NO'', [''NO1'', ''NO2'', ''NO3'', ''NO4'', ''NO5'', ''NO6'', ''NO7'']),
     (''MS'', [''MS1'', ''MS2'']),
     (''MJ'', [''MJ1'']),
     (''NI'', [''NI1'', ''NI2'', ''NI3'', ''NI4'', ''NI5'', ''NI6'']),
     (''NS'', [''NS1'', ''NS2'', ''NS3'', ''NS4'']),
     (''NJ'', [''NJ1'', ''NJ2'', ''NJ3'', ''NJ4'']),
     (''MO'', [''MO1'']),
     (''MI'', [''MI1'']),
     (''HL'', [''HL1'', ''HL2'', ''HL3'', ''HL4'', ''HL5'', ''HL6'', ''HL7'', ''HL8'', ''HL9'',
               ''HL10'', ''HL11'', ''HL12'', ''HL13'', ''HL14'', ''HL15'', ''HL16'', ''HL17'',
               ''HL18'', ''HL19'', ''HL20'', ''HL21'', ''HL22'', ''HL23'', ''HL24'']),
     (''**'', [''**1'', ''**2'', ''**3'', ''**4'', ''**5'', ''**6'', ''**7'', ''**8'', ''**9'',
               ''**10'', ''**11'', ''**12'', ''**13'', ''**14'', ''**15'', ''**16'', ''**17'',
               ''**18'', ''**19'', ''**20'', ''**21'', ''**22'', ''**23'', ''**24'', ''**25'',
               ''**26'', ''**27'', ''**28'', ''**29'', ''**30''])]"
  by code_simp

lemma BuildGameKeyMappings_eval:
  "BuildGameKeyMappings = Some
    ([(''SL5'', ''**5''), (''SL2'', ''**2''), (''SZ3'', ''**3''), (''SL1'', ''**1''),
      (''SL4'', ''**4''), (''SL7'', ''**7''), (''SL6'', ''**6''), (''SZ8'', ''**8''),
      (''SL9'', ''**9''), (''SL10'', ''**10''), (''SL11'', ''**11''), (''SL12'', ''**12''),
      (''SL13'', ''**13''), (''SZ24'', ''**24''), (''SZ14'', ''**14''), (''SZ15'', ''**15''),
      (''SL16'', ''**16''), (''SL17'', ''**17''), (''SL18'', ''**18''), (''SL19'', ''**19''),
      (''SL20'', ''**20''), (''SL21'', ''**21''), (''SL22'', ''**22''), (''SL23'', ''**23''),
      (''SL27'', ''**27''), (''SL29'', ''**29''), (''SL30'', ''**30''), (''SZ26'', ''**26''),
      (''SL25'', ''**25''), (''SL28'', ''**28'')],
     [(''**5'', ''SL5''), (''**2'', ''SL2''), (''**3'', ''SZ3''), (''**1'', ''SL1''),
      (''**4'', ''SL4''), (''**7'', ''SL7''), (''**6'', ''SL6''), (''**8'', ''SZ8''),
      (''**9'', ''SL9''), (''**10'', ''SL10''), (''**11'', ''SL11''), (''**12'', ''SL12''),
      (''**13'', ''SL13''), (''**24'', ''SZ24''), (''**14'', ''SZ14''), (''**15'', ''SZ15''),
      (''**16'', ''SL16''), (''**17'', ''SL17''), (''**18'', ''SL18''), (''**19'', ''SL19''),
      (''**20'', ''SL20''), (''**21'', ''SL21''), (''**22'', ''SL22''), (''**23'', ''SL23''),
      (''**27'', ''SL27''), (''**29'', ''SL29''), (''**30'', ''SL30''), (''**26'', ''SZ26''),
      (''**25'', ''SL25''), (''**28'', ''SL28'')])"
  by code_simp


lemma BuildLocations_keys:
  "map fst BuildLocations = ALL_TETROMINOES @ ALL_PURPLE_SIGILS @ ALL_STARS"
  by code_simp

lemma BuildLocations_nonneg: "list_all (\<lambda>(k, v). 0 \<le> v) BuildLocations"
  by code_simp

lemma ItemMapping_ctor_Some: "ItemMapping_ctor = Some Registry"
  by (simp add: Registry_def ItemMapping_ctor_def BuildSequences_eval BuildGameKeyMappings_eval)

lemma Registry_fields:
  "apItemIdToPrefix Registry = AP_ITEM_ID_TO_PREFIX"
  "Some (tetrominoSequences Registry) = BuildSequences"
  "locationNameToId Registry = BuildLocations"
  "receivedCounts Registry = []"
  "Some (modIdToGameKey Registry, gameKeyToModId Registry) = BuildGameKeyMappings"
  by (simp_all add: Registry_def ItemMapping_ctor_def BuildSequences_eval BuildGameKeyMappings_eval)

lemmas Registry_tetrominoSequences =
  Registry_fields(2) [unfolded BuildSequences_eval option.inject]

lemmas Registry_gameKeys =
  Registry_fields(5) [unfolded BuildGameKeyMappings_eval option.inject prod.inject]

lemmas Registry_modIdToGameKey = Registry_gameKeys [THEN conjunct1]
lemmas Registry_gameKeyToModId = Registry_gameKeys [THEN conjunct2]


lemma Registry_sequences_nonempty:
  "map_of (tetrominoSequences Registry) prefix = Some seq \<Longrightarrow> seq \<noteq> [] \<and> length seq \<le> 30"
proof -
  assume "map_of (tetrominoSequences Registry) prefix = Some seq"
  then have "(prefix, seq) \<in> set (tetrominoSequences Registry)"
    by (rule map_of_SomeD)
  moreover have "list_all (\<lambda>(p, s). s \<noteq> [] \<and> length s \<le> 30) (tetrominoSequences Registry)"
    unfolding Registry_tetrominoSequences by simp
  ultimately show ?thesis
    by (auto simp: list_all_iff)
qed

lemma Registry_known_has_sequence:
  "map_of (apItemIdToPrefix Registry) apItemId = Some prefix \<Longrightarrow>
   \<exists>seq. map_of (tetrominoSequences Registry) prefix = Some seq"
proof -
  assume "map_of (apItemIdToPrefix Registry) apItemId = Some prefix"
  then have "(apItemId, prefix) \<in> set AP_ITEM_ID_TO_PREFIX"
    unfolding Registry_fields by (rule map_of_SomeD)
  moreover have "list_all (\<lambda>(a, p). map_of (tetrominoSequences Registry) p \<noteq> None) AP_ITEM_ID_TO_PREFIX"
    unfolding Registry_tetrominoSequences AP_ITEM_ID_TO_PREFIX_def by simp
  ultimately show ?thesis
    by (auto simp: list_all_iff)
qed

text \<open>
  Within every sequence that is sorted the embedded numbers are pairwise different and none
  makes \<^verbatim>\<open>std::stoi\<close> throw, so the order \<^verbatim>\<open>std::sort\<close> produces is the one computed here.
\<close>

lemma Registry_numbers_distinct:
  "list_all (\<lambda>(prefix, seq). distinct (map ExtractNumber seq) \<and> None \<notin> set (map ExtractNumber seq))
     (addSequences ALL_PURPLE_SIGILS (addSequences ALL_TETROMINOES []))"
  by code_simp

section \<open>Item resolution\<close>


lemma update_update_same:
  "AList.update k v' (AList.update k v al) = AList.update k v' al"
  by (induction al) auto

lemma received_count_update [simp]:
  "received_count (im\<lparr>receivedCounts := AList.update p v rc\<rparr>) q =
     (if q = p then v else received_count (im\<lparr>receivedCounts := rc\<rparr>) q)"
  by (simp add: received_count_def AList.update_conv')

lemma received_count_same [simp]:
  "received_count (im\<lparr>receivedCounts := receivedCounts im\<rparr>) q = received_count im q"
  by (simp add: received_count_def)

lemma ResolveNextItem_known:
  assumes "map_of (apItemIdToPrefix im) a = Some p"
    and "map_of (tetrominoSequences im) p = Some seq"
    and "seq \<noteq> []"
    and "0 \<le> received_count im p"
    and "received_count im p < INT_MAX"
  shows "ResolveNextItem im a =
           Inr (if received_count im p < int (length seq)
                then Some (seq ! nat (received_count im p)) else None,
                im\<lparr>receivedCounts := AList.update p (received_count im p + 1) (receivedCounts im)\<rparr>)"
  using assms by (simp add: ResolveNextItem_def Let_def)

lemma resolve_times_known:
  assumes "map_of (apItemIdToPrefix im) a = Some p"
    and "map_of (tetrominoSequences im) p = Some seq"
    and "seq \<noteq> []"
    and "0 \<le> received_count im p"
    and "received_count im p + int n \<le> INT_MAX"
  shows "resolve_times n im a =
           Inr (map (\<lambda>k. if received_count im p + int k < int (length seq)
                          then Some (seq ! nat (received_count im p + int k)) else None) [0 ..< n],
                if n = 0 then im
                else im\<lparr>receivedCounts :=
                          AList.update p (received_count im p + int n) (receivedCounts im)\<rparr>)"
  using assms
proof (induction n arbitrary: im)
  case 0
  then show ?case by simp
next
  case (Suc n)
  let ?c = "received_count im p"
  let ?im1 = "im\<lparr>receivedCounts := AList.update p (?c + 1) (receivedCounts im)\<rparr>"
  have step: "ResolveNextItem im a =
      Inr (if ?c < int (length seq) then Some (seq ! nat ?c) else None, ?im1)"
    using Suc.prems by (intro ResolveNextItem_known) auto
  have c1: "received_count ?im1 p = ?c + 1"
    by simp
  have rest: "resolve_times n ?im1 a =
      Inr (map (\<lambda>k. if received_count ?im1 p + int k < int (length seq)
                     then Some (seq ! nat (received_count ?im1 p + int k)) else None) [0 ..< n],
           if n = 0 then ?im1
           else ?im1\<lparr>receivedCounts :=
                   AList.update p (received_count ?im1 p + int n) (receivedCounts ?im1)\<rparr>)"
    using Suc.prems by (intro Suc.IH) (auto simp: c1)
  have rest': "resolve_times n ?im1 a =
      Inr (map (\<lambda>k. if ?c + 1 + int k < int (length seq)
                     then Some (seq ! nat (?c + 1 + int k)) else None) [0 ..< n],
           if n = 0 then ?im1
           else im\<lparr>receivedCounts := AList.update p (?c + 1 + int n) (receivedCounts im)\<rparr>)"
    using rest unfolding c1 by (simp add: update_update_same)
  have "resolve_times (Suc n) im a =
      Inr ((if ?c < int (length seq) then Some (seq ! nat ?c) else None) #
           map (\<lambda>k. if ?c + 1 + int k < int (length seq)
                     then Some (seq ! nat (?c + 1 + int k)) else None) [0 ..< n],
           if n = 0 then ?im1
           else im\<lparr>receivedCounts := AList.update p (?c + 1 + int n) (receivedCounts im)\<rparr>)"
    by (simp only: resolve_times.simps step sum.case prod.case rest')
  then show ?case
    by (simp add: map_upt_Suc algebra_simps del: upt_Suc)
qed

lemma resolve_times_replicate: "resolve_times n im a = resolve_all im (replicate n a)"
  by (induction n arbitrary: im) (auto split: sum.splits)

lemma map_Some_nth_upt:
  "map (\<lambda>k. if 0 + int k < int (length seq) then Some (seq ! nat (0 + int k)) else None)
       [0 ..< Suc (length seq)] = map Some seq @ [None]"
proof -
  have "map (\<lambda>k. if 0 + int k < int (length seq) then Some (seq ! nat (0 + int k)) else None)
            [0 ..< length seq] = map (\<lambda>k. Some (seq ! k)) [0 ..< length seq]"
    by (rule map_cong) auto
  also have "\<dots> = map Some (map ((!) seq) [0 ..< length seq])"
    by simp
  also have "\<dots> = map Some seq"
    by (simp only: map_nth)
  finally show ?thesis by simp
qed

text \<open>
  Two item IDs never share a prefix, so a grant of one ID leaves the count of every other
  ID's prefix alone.
\<close>

lemma Registry_prefix_inj:
  assumes "map_of (apItemIdToPrefix Registry) a = Some p"
    and "map_of (apItemIdToPrefix Registry) b = Some p"
  shows "a = b"
proof -
  have d: "distinct (map snd AP_ITEM_ID_TO_PREFIX)"
    by (simp add: AP_ITEM_ID_TO_PREFIX_def)
  have "(a, p) \<in> set AP_ITEM_ID_TO_PREFIX" and "(b, p) \<in> set AP_ITEM_ID_TO_PREFIX"
    using assms by (auto simp: Registry_fields dest: map_of_SomeD)
  then show ?thesis
    using d by (metis distinct_map inj_onD snd_conv fst_conv)
qed

lemma ResolveNextItem_Registry_step:
  assumes "map_of (apItemIdToPrefix Registry) a = Some p"
    and "map_of (tetrominoSequences Registry) p = Some seq"
    and "im = Registry\<lparr>receivedCounts := c\<rparr>"
    and "\<forall>q. 0 \<le> received_count im q \<and> received_count im q < INT_MAX"
  shows "\<exists>r c1. ResolveNextItem im b = Inr (r, Registry\<lparr>receivedCounts := c1\<rparr>) \<and>
           (\<forall>q. received_count im q \<le> received_count (Registry\<lparr>receivedCounts := c1\<rparr>) q \<and>
                received_count (Registry\<lparr>receivedCounts := c1\<rparr>) q \<le> received_count im q + 1) \<and>
           received_count (Registry\<lparr>receivedCounts := c1\<rparr>) p =
             received_count im p + (if b = a then 1 else 0) \<and>
           (b = a \<longrightarrow> r = (if received_count im p < int (length seq)
                            then Some (seq ! nat (received_count im p)) else None))"
proof (cases "map_of (apItemIdToPrefix Registry) b")
  case None
  then have "ResolveNextItem im b = Inr (None, Registry\<lparr>receivedCounts := c\<rparr>)"
    by (simp add: ResolveNextItem_def assms(3))
  moreover have "b \<noteq> a"
    using None assms(1) by auto
  ultimately show ?thesis
    using assms(3) by (intro exI [of _ None] exI [of _ c]) simp
next
  case (Some pb)
  obtain sb where sb: "map_of (tetrominoSequences Registry) pb = Some sb"
    using Registry_known_has_sequence [OF Some] by blast
  have ne: "sb \<noteq> []"
    using Registry_sequences_nonempty [OF sb] by simp
  have kb: "map_of (apItemIdToPrefix im) b = Some pb" "map_of (tetrominoSequences im) pb = Some sb"
    using Some sb by (simp_all add: assms(3))
  let ?cb = "received_count im pb"
  have step: "ResolveNextItem im b =
      Inr (if ?cb < int (length sb) then Some (sb ! nat ?cb) else None,
           im\<lparr>receivedCounts := AList.update pb (?cb + 1) (receivedCounts im)\<rparr>)"
    using assms(4) by (intro ResolveNextItem_known [OF kb ne]) auto
  have im1: "im\<lparr>receivedCounts := AList.update pb (?cb + 1) (receivedCounts im)\<rparr> =
      Registry\<lparr>receivedCounts := AList.update pb (?cb + 1) c\<rparr>"
    by (simp add: assms(3))
  have same: "pb = p \<longleftrightarrow> b = a"
    using Registry_prefix_inj [of a p b] assms(1) Some by auto
  have seq_eq: "b = a \<Longrightarrow> sb = seq"
    using same sb assms(2) by auto
  show ?thesis
    unfolding step im1
    apply (intro exI [of _ "if ?cb < int (length sb) then Some (sb ! nat ?cb) else None"]
        exI [of _ "AList.update pb (?cb + 1) c"])
    using same seq_eq by (auto simp: assms(3))
qed

lemma resolve_all_Registry:
  assumes "map_of (apItemIdToPrefix Registry) a = Some p"
    and "map_of (tetrominoSequences Registry) p = Some seq"
    and "\<forall>q. 0 \<le> received_count (Registry\<lparr>receivedCounts := c\<rparr>) q \<and>
             received_count (Registry\<lparr>receivedCounts := c\<rparr>) q + int (length ids) \<le> INT_MAX"
  shows "\<exists>rs c'. resolve_all (Registry\<lparr>receivedCounts := c\<rparr>) ids =
                    Inr (rs, Registry\<lparr>receivedCounts := c'\<rparr>) \<and>
           length rs = length ids \<and>
           (\<forall>j < length ids. ids ! j = a \<longrightarrow>
              rs ! j =
                (let i = nat (received_count (Registry\<lparr>receivedCounts := c\<rparr>) p) +
                         count_list (take (Suc j) ids) a
                 in if i \<le> length seq then Some (seq ! (i - 1)) else None))"
  using assms(3)
proof (induction ids arbitrary: c)
  case Nil
  show ?case
    by (intro exI [of _ "[]"] exI [of _ c]) simp
next
  case (Cons b rest)
  let ?im = "Registry\<lparr>receivedCounts := c\<rparr>"
  have bounds: "\<forall>q. 0 \<le> received_count ?im q \<and> received_count ?im q < INT_MAX"
  proof
    fix q
    have "0 \<le> received_count ?im q" and "received_count ?im q + int (length (b # rest)) \<le> INT_MAX"
      using Cons.prems by auto
    then show "0 \<le> received_count ?im q \<and> received_count ?im q < INT_MAX"
      by simp
  qed
  obtain r c1 where step: "ResolveNextItem ?im b = Inr (r, Registry\<lparr>receivedCounts := c1\<rparr>)"
    and mono: "\<forall>q. received_count ?im q \<le> received_count (Registry\<lparr>receivedCounts := c1\<rparr>) q \<and>
                received_count (Registry\<lparr>receivedCounts := c1\<rparr>) q \<le> received_count ?im q + 1"
    and cp: "received_count (Registry\<lparr>receivedCounts := c1\<rparr>) p =
               received_count ?im p + (if b = a then 1 else 0)"
    and res: "b = a \<longrightarrow> r = (if received_count ?im p < int (length seq)
                            then Some (seq ! nat (received_count ?im p)) else None)"
    using ResolveNextItem_Registry_step [OF assms(1,2) refl bounds, of b] by blast
  have "\<forall>q. 0 \<le> received_count (Registry\<lparr>receivedCounts := c1\<rparr>) q \<and>
             received_count (Registry\<lparr>receivedCounts := c1\<rparr>) q + int (length rest) \<le> INT_MAX"
  proof
    fix q
    have "0 \<le> received_count ?im q" and "received_count ?im q + int (length (b # rest)) \<le> INT_MAX"
      using Cons.prems by auto
    moreover have "received_count ?im q \<le> received_count (Registry\<lparr>receivedCounts := c1\<rparr>) q"
      and "received_count (Registry\<lparr>receivedCounts := c1\<rparr>) q \<le> received_count ?im q + 1"
      using mono by auto
    ultimately show "0 \<le> received_count (Registry\<lparr>receivedCounts := c1\<rparr>) q \<and>
             received_count (Registry\<lparr>receivedCounts := c1\<rparr>) q + int (length rest) \<le> INT_MAX"
      by simp
  qed
  then obtain rs' c' where rest: "resolve_all (Registry\<lparr>receivedCounts := c1\<rparr>) rest =
                    Inr (rs', Registry\<lparr>receivedCounts := c'\<rparr>)"
    and len: "length rs' = length rest"
    and later: "\<forall>j < length rest. rest ! j = a \<longrightarrow>
              rs' ! j =
                (let i = nat (received_count (Registry\<lparr>receivedCounts := c1\<rparr>) p) +
                         count_list (take (Suc j) rest) a
                 in if i \<le> length seq then Some (seq ! (i - 1)) else None)"
    using Cons.IH [of c1] by blast
  have nonneg: "0 \<le> received_count ?im p"
    using Cons.prems by auto
  have all: "resolve_all ?im (b # rest) = Inr (r # rs', Registry\<lparr>receivedCounts := c'\<rparr>)"
    by (simp add: step rest)
  have "(b # rest) ! j = a \<longrightarrow>
          (r # rs') ! j =
            (let i = nat (received_count ?im p) + count_list (take (Suc j) (b # rest)) a
             in if i \<le> length seq then Some (seq ! (i - 1)) else None)"
    if "j < length (b # rest)" for j
  proof (cases j)
    case 0
    then show ?thesis
      using res nonneg by (auto simp: Let_def)
  next
    case (Suc j')
    then have "j' < length rest"
      using that by simp
    then have "rest ! j' = a \<longrightarrow>
              rs' ! j' =
                (let i = nat (received_count (Registry\<lparr>receivedCounts := c1\<rparr>) p) +
                         count_list (take (Suc j') rest) a
                 in if i \<le> length seq then Some (seq ! (i - 1)) else None)"
      using later by blast
    then show ?thesis
      using nonneg by (auto simp: Suc cp Let_def nat_add_distrib)
  qed
  then show ?case
    using all len by (intro exI [of _ "r # rs'"] exI [of _ c']) simp
qed

lemma received_count_reset [simp]: "received_count (ResetItemCounters im) q = 0"
  by (simp add: ResetItemCounters_def received_count_def)

text \<open>
  Claim C1. Take an item ID the registry knows, with prefix \<open>prefix\<close> and sequence
  \<open>seq\<close>, and start from zero received counts (the object as \<^verbatim>\<open>ResetItemCounters\<close>
  leaves it). Called \<open>length seq + 1\<close> times in a row for that ID,
  \<^verbatim>\<open>ResolveNextItem\<close> returns \<open>map Some seq @ [None]\<close>: the i-th call returns
  \<open>seq ! (i - 1)\<close> for every i from 1 to \<open>length seq\<close>, and the call after them fails.
  The same holds when grants of other IDs come in between: in any list \<open>ids\<close> of grants,
  the call at position \<open>j\<close> that is the i-th one for this ID (\<open>i\<close> counts the occurrences
  of the ID up to and including \<open>j\<close>) returns \<open>seq ! (i - 1)\<close> while \<open>i \<le> length seq\<close>
  and nothing afterwards. The list is shorter than \<^verbatim>\<open>INT_MAX\<close>, so that no counter
  overflows.
\<close>

theorem resolution_determinism:
  assumes "map_of (apItemIdToPrefix Registry) apItemId = Some prefix"
    and "map_of (tetrominoSequences Registry) prefix = Some seq"
    and "im = ResetItemCounters (Registry\<lparr>receivedCounts := counts\<rparr>)"
    and "int (length ids) \<le> INT_MAX"
  shows "resolutions (Suc (length seq)) im apItemId = Inr (map Some seq @ [None]) \<and>
         (\<exists>rs im'. resolve_all im ids = Inr (rs, im') \<and> length rs = length ids \<and>
            (\<forall>j < length ids. ids ! j = apItemId \<longrightarrow>
               rs ! j = (let i = count_list (take (Suc j) ids) apItemId
                         in if i \<le> length seq then Some (seq ! (i - 1)) else None)))"
proof -
  have im: "im = Registry\<lparr>receivedCounts := []\<rparr>"
    by (simp add: assms(3) ResetItemCounters_def)
  have zero: "received_count im q = 0" for q
    by (simp add: assms(3))
  have ne: "seq \<noteq> []" and len: "length seq \<le> 30"
    using Registry_sequences_nonempty [OF assms(2)] by auto
  have "resolve_times (Suc (length seq)) im apItemId =
      Inr (map (\<lambda>k. if received_count im prefix + int k < int (length seq)
                     then Some (seq ! nat (received_count im prefix + int k)) else None)
               [0 ..< Suc (length seq)],
           if Suc (length seq) = 0 then im
           else im\<lparr>receivedCounts :=
                  AList.update prefix (received_count im prefix + int (Suc (length seq)))
                    (receivedCounts im)\<rparr>)"
    using assms(1,2) ne len
    by (intro resolve_times_known) (auto simp: INT_MAX_def im received_count_def)
  then have consecutive: "resolutions (Suc (length seq)) im apItemId = Inr (map Some seq @ [None])"
    unfolding resolutions_def zero map_Some_nth_upt by simp
  have "\<forall>q. 0 \<le> received_count (Registry\<lparr>receivedCounts := []\<rparr>) q \<and>
             received_count (Registry\<lparr>receivedCounts := []\<rparr>) q + int (length ids) \<le> INT_MAX"
    using assms(4) by (simp add: received_count_def)
  then obtain rs c' where
      "resolve_all (Registry\<lparr>receivedCounts := []\<rparr>) ids = Inr (rs, Registry\<lparr>receivedCounts := c'\<rparr>)"
      "length rs = length ids"
      "\<forall>j < length ids. ids ! j = apItemId \<longrightarrow>
              rs ! j =
                (let i = nat (received_count (Registry\<lparr>receivedCounts := []\<rparr>) prefix) +
                         count_list (take (Suc j) ids) apItemId
                 in if i \<le> length seq then Some (seq ! (i - 1)) else None)"
    using resolve_all_Registry [OF assms(1,2), of "[]" ids] by blast
  then have "\<exists>rs im'. resolve_all im ids = Inr (rs, im') \<and> length rs = length ids \<and>
            (\<forall>j < length ids. ids ! j = apItemId \<longrightarrow>
               rs ! j = (let i = count_list (take (Suc j) ids) apItemId
                         in if i \<le> length seq then Some (seq ! (i - 1)) else None))"
    unfolding im by (intro exI [of _ rs] exI [of _ "Registry\<lparr>receivedCounts := c'\<rparr>"])
      (simp add: received_count_def)
  then show ?thesis
    using consecutive by blast
qed

theorem resolution_determinism_witness:
  "map_of (apItemIdToPrefix Registry) 0x54000A = Some ''MO'' \<and>
   map_of (tetrominoSequences Registry) ''MO'' = Some [''MO1''] \<and>
   int (length [0x54000A, 7, 0x54000A :: int]) \<le> INT_MAX \<and>
   resolutions (Suc (length [''MO1'']))
     (ResetItemCounters (Registry\<lparr>receivedCounts := [(''MO'', 1)]\<rparr>)) 0x54000A
     = Inr (map Some [''MO1''] @ [None]) \<and>
   (\<exists>rs im'. resolve_all (ResetItemCounters (Registry\<lparr>receivedCounts := [(''MO'', 1)]\<rparr>))
                [0x54000A, 7, 0x54000A] = Inr (rs, im') \<and>
              rs ! 0 = Some ''MO1'' \<and> rs ! 2 = None)"
proof -
  have a: "map_of (apItemIdToPrefix Registry) 0x54000A = Some ''MO''"
    by (simp add: Registry_fields AP_ITEM_ID_TO_PREFIX_def)
  have b: "map_of (tetrominoSequences Registry) ''MO'' = Some [''MO1'']"
    by (simp add: Registry_tetrominoSequences)
  have c: "int (length [0x54000A, 7, 0x54000A :: int]) \<le> INT_MAX"
    by (simp add: INT_MAX_def)
  note th = resolution_determinism [OF a b refl c, of "[(''MO'', 1)]"]
  obtain rs im' where r: "resolve_all (ResetItemCounters (Registry\<lparr>receivedCounts := [(''MO'', 1)]\<rparr>))
                [0x54000A, 7, 0x54000A] = Inr (rs, im')"
    and at: "\<forall>j < length [0x54000A, 7, 0x54000A :: int]. [0x54000A, 7, 0x54000A] ! j = (0x54000A :: int) \<longrightarrow>
               rs ! j = (let i = count_list (take (Suc j) [0x54000A, 7, 0x54000A]) (0x54000A :: int)
                         in if i \<le> length [''MO1''] then Some ([''MO1''] ! (i - 1)) else None)"
    using th by blast
  have "rs ! 0 = Some ''MO1''"
    using at [THEN spec, of 0] by simp
  moreover have "rs ! 2 = None"
    using at [THEN spec, of 2] by simp
  ultimately show ?thesis
    using a b c th r by simp
qed

lemma Registry_DJ:
  "map_of (apItemIdToPrefix Registry) 0x540000 = Some ''DJ''"
  "map_of (tetrominoSequences Registry) ''DJ'' = Some [''DJ1'', ''DJ2'', ''DJ3'', ''DJ4'', ''DJ5'']"
  "received_count Registry ''DJ'' = 0"
  by (simp_all add: Registry_fields AP_ITEM_ID_TO_PREFIX_def Registry_tetrominoSequences
        received_count_def)

lemma upt_4: "[0 ..< 4] = [0, 1, 2, 3]"
  by (simp add: upt_rec)

lemma upt_6: "[0 ..< 6] = [0, 1, 2, 3, 4, 5]"
  by (simp add: upt_rec)

text \<open>
  Claim C2 says that four grants of item \<open>0x540000\<close> (prefix DJ) resolve to DJ1, DJ2, DJ3
  and then fail. The table holds five DJ pieces (DJ3, DJ2, DJ1 in world A1, DJ4 in B4, DJ5 in
  B5), so the fourth grant resolves to DJ4.
\<close>

theorem dj_four_grants_counterexample:
  "resolutions 4 Registry 0x540000 = Inr [Some ''DJ1'', Some ''DJ2'', Some ''DJ3'', Some ''DJ4''] \<and>
   resolutions 4 Registry 0x540000 \<noteq> Inr [Some ''DJ1'', Some ''DJ2'', Some ''DJ3'', None]"
  using resolve_times_known [OF Registry_DJ(1) Registry_DJ(2), of 4]
  by (simp add: resolutions_def Registry_DJ(3) INT_MAX_def upt_4)

text \<open>
  Claim C2, amended. Starting from zero received counts, six grants of item \<open>0x540000\<close>
  resolve to DJ1, DJ2, DJ3, DJ4, DJ5 and then fail: the sixth call is the first that returns
  nothing.
\<close>

theorem dj_six_grants:
  "resolutions 6 Registry 0x540000 =
     Inr [Some ''DJ1'', Some ''DJ2'', Some ''DJ3'', Some ''DJ4'', Some ''DJ5'', None]"
  using resolve_times_known [OF Registry_DJ(1) Registry_DJ(2), of 6]
  by (simp add: resolutions_def Registry_DJ(3) INT_MAX_def upt_6)

text \<open>
  Claim C7. For a known item ID whose received count has reached the length of its sequence,
  \<^verbatim>\<open>ResolveNextItem\<close> returns nothing and changes the object only in that prefix's
  received count, which grows by one; and each of any \<open>n\<close> consecutive calls returns
  nothing, none wrapping round to the start of the sequence. The last hypothesis keeps the
  C++ \<^verbatim>\<open>int\<close> counter below \<^verbatim>\<open>INT_MAX\<close>, where \<^verbatim>\<open>++count\<close> has no defined
  behaviour.
\<close>

theorem exhausted_counter_still_advances:
  assumes "map_of (apItemIdToPrefix Registry) apItemId = Some prefix"
    and "map_of (tetrominoSequences Registry) prefix = Some seq"
    and "im = Registry\<lparr>receivedCounts := counts\<rparr>"
    and "int (length seq) \<le> received_count im prefix"
    and "0 < n"
    and "received_count im prefix + int n \<le> INT_MAX"
  shows "ResolveNextItem im apItemId =
           Inr (None, im\<lparr>receivedCounts := AList.update prefix (received_count im prefix + 1) counts\<rparr>) \<and>
         resolve_times n im apItemId =
           Inr (replicate n None,
                im\<lparr>receivedCounts := AList.update prefix (received_count im prefix + int n) counts\<rparr>)"
proof -
  have ne: "seq \<noteq> []"
    using Registry_sequences_nonempty [OF assms(2)] by simp
  have p: "map_of (apItemIdToPrefix im) apItemId = Some prefix"
    and q: "map_of (tetrominoSequences im) prefix = Some seq"
    and r: "receivedCounts im = counts"
    using assms(1,2) by (simp_all add: assms(3))
  have nonneg: "0 \<le> received_count im prefix"
    using assms(4) by linarith
  have one: "ResolveNextItem im apItemId =
      Inr (None, im\<lparr>receivedCounts := AList.update prefix (received_count im prefix + 1) counts\<rparr>)"
    using ResolveNextItem_known [OF p q ne nonneg] assms(4,5,6) by (simp add: r)
  have "map (\<lambda>k. if received_count im prefix + int k < int (length seq)
                  then Some (seq ! nat (received_count im prefix + int k)) else None) [0 ..< n]
        = map (\<lambda>k. None) [0 ..< n]"
    using assms(4) by (intro map_cong) auto
  then have many: "resolve_times n im apItemId =
      Inr (replicate n None,
           im\<lparr>receivedCounts := AList.update prefix (received_count im prefix + int n) counts\<rparr>)"
    using resolve_times_known [OF p q ne nonneg assms(6)] assms(5)
    by (simp add: r map_replicate_const)
  show ?thesis
    using one many by simp
qed

theorem exhausted_counter_still_advances_witness:
  "map_of (apItemIdToPrefix Registry) 0x54000A = Some ''MO'' \<and>
   map_of (tetrominoSequences Registry) ''MO'' = Some [''MO1''] \<and>
   int (length [''MO1'']) \<le> received_count (Registry\<lparr>receivedCounts := [(''MO'', 1)]\<rparr>) ''MO'' \<and>
   (0::nat) < 3 \<and>
   received_count (Registry\<lparr>receivedCounts := [(''MO'', 1)]\<rparr>) ''MO'' + int 3 \<le> INT_MAX \<and>
   ResolveNextItem (Registry\<lparr>receivedCounts := [(''MO'', 1)]\<rparr>) 0x54000A =
     Inr (None, Registry\<lparr>receivedCounts := [(''MO'', 2)]\<rparr>) \<and>
   resolve_times 3 (Registry\<lparr>receivedCounts := [(''MO'', 1)]\<rparr>) 0x54000A =
     Inr (replicate 3 None, Registry\<lparr>receivedCounts := [(''MO'', 4)]\<rparr>)"
proof -
  have a: "map_of (apItemIdToPrefix Registry) 0x54000A = Some ''MO''"
    by (simp add: Registry_fields AP_ITEM_ID_TO_PREFIX_def)
  have b: "map_of (tetrominoSequences Registry) ''MO'' = Some [''MO1'']"
    by (simp add: Registry_tetrominoSequences)
  have c: "int (length [''MO1'']) \<le> received_count (Registry\<lparr>receivedCounts := [(''MO'', 1)]\<rparr>) ''MO''"
    by (simp add: received_count_def)
  have d: "(0::nat) < 3"
    by simp
  have e: "received_count (Registry\<lparr>receivedCounts := [(''MO'', 1)]\<rparr>) ''MO'' + int 3 \<le> INT_MAX"
    by (simp add: received_count_def INT_MAX_def)
  show ?thesis
    using a b c d e exhausted_counter_still_advances [OF a b refl c d e]
    by (simp add: received_count_def)
qed

text \<open>
  Claim C10. For an item ID that is not in the item table, \<^verbatim>\<open>ResolveNextItem\<close> returns
  nothing and leaves the object as it was: no received count moves, so every later call
  behaves as if the unknown grant had not arrived.
\<close>

theorem unknown_item_dropped:
  assumes "map_of (apItemIdToPrefix im) apItemId = None"
  shows "ResolveNextItem im apItemId = Inr (None, im)"
  using assms by (simp add: ResolveNextItem_def)

theorem unknown_item_dropped_witness:
  "map_of (apItemIdToPrefix Registry) 7 = None \<and> ResolveNextItem Registry 7 = Inr (None, Registry)"
proof -
  have a: "map_of (apItemIdToPrefix Registry) 7 = None"
    by (simp add: Registry_fields AP_ITEM_ID_TO_PREFIX_def)
  show ?thesis
    using a unknown_item_dropped [OF a] by simp
qed


section \<open>The three phases of EnforceCollectionState\<close>

lemma remove_keys_fold:
  "fold (\<lambda>gk (m, ops). (AList.delete gk m, ops @ [Remove gk])) gks (tmap, acc) =
     (fold AList.delete gks tmap, acc @ map Remove gks)"
  by (induction gks arbitrary: tmap acc) auto

lemma remove_keys_eq: "remove_keys gks tmap = (fold AList.delete gks tmap, map Remove gks)"
  by (simp add: remove_keys_def remove_keys_fold)

lemma map_of_fold_delete:
  "map_of (fold AList.delete gks tmap) k = (if k \<in> set gks then None else map_of tmap k)"
  by (induction gks arbitrary: tmap) (auto simp: AList.delete_conv)

lemma in_toRemoveGameKeys:
  "k \<in> set (toRemoveGameKeys st im tmap) \<longleftrightarrow> k \<in> fst ` set tmap \<and> to_remove st im k"
  by (auto simp: toRemoveGameKeys_def)

lemma map_of_after_removal:
  "map_of (fold AList.delete (toRemoveGameKeys st im tmap) tmap) k =
     (if to_remove st im k then None else map_of tmap k)"
  by (auto simp: map_of_fold_delete in_toRemoveGameKeys map_of_eq_None_iff)

lemma map_of_snoc:
  "map_of (m @ [(gk, v)]) k = (case map_of m k of Some w \<Rightarrow> Some w | None \<Rightarrow> if k = gk then Some v else None)"
  by (induction m) auto

lemma ensure_granted_step:
  "ensure_granted im ident (m, ops) =
     (if map_of m (ToGameKey im ident) = None
      then (m @ [(ToGameKey im ident, False)], ops @ [Add (ToGameKey im ident) False])
      else (m, ops))"
  by (simp add: ensure_granted_def Let_def)

lemma fold_ensure_granted:
  "map_of (fst (fold (ensure_granted im) granted (m, ops))) k =
     (case map_of m k of
        Some v \<Rightarrow> Some v
      | None \<Rightarrow> if k \<in> ToGameKey im ` set granted then Some False else None)"
proof (induction granted arbitrary: m ops k)
  case Nil
  then show ?case by (simp split: option.splits)
next
  case (Cons ident granted)
  show ?case
  proof (cases "map_of m (ToGameKey im ident) = None")
    case True
    then show ?thesis
      by (auto simp: ensure_granted_step Cons.IH map_of_snoc split: option.splits)
  next
    case False
    then show ?thesis
      by (auto simp: ensure_granted_step Cons.IH split: option.splits)
  qed
qed

lemma map_of_add_granted:
  "map_of (fst (add_granted im granted m)) k =
     (case map_of m k of
        Some v \<Rightarrow> Some v
      | None \<Rightarrow> if k \<in> ToGameKey im ` set granted then Some False else None)"
  by (simp add: add_granted_def fold_ensure_granted)

lemma fold_ensure_granted_present:
  "\<forall>ident \<in> set granted. map_of m (ToGameKey im ident) \<noteq> None \<Longrightarrow>
   fold (ensure_granted im) granted (m, ops) = (m, ops)"
  by (induction granted) (auto simp: ensure_granted_step)

lemma add_granted_present:
  "\<forall>ident \<in> set granted. map_of m (ToGameKey im ident) \<noteq> None \<Longrightarrow>
   add_granted im granted m = (m, [])"
  by (simp add: add_granted_def fold_ensure_granted_present)

lemma used_flag_reset: "(if v then False else v) = False"
  by (cases v) simp_all

lemma map_of_reset_used:
  "map_of (fst (reset_used m)) k = map_option (\<lambda>v. False) (map_of m k)"
  by (induction m) (auto simp: reset_used_def used_flag_reset)

lemma reset_used_all_unused:
  "\<forall>p \<in> set m. \<not> snd p \<Longrightarrow> reset_used m = (m, [])"
proof -
  assume a: "\<forall>p \<in> set m. \<not> snd p"
  then have "map (\<lambda>(k, v). (k, if v then False else v)) m = m"
    by (induction m) auto
  moreover have "filter snd m = []"
    using a by (induction m) auto
  ultimately show ?thesis
    by (simp add: reset_used_def)
qed

lemma reset_used_values: "\<forall>p \<in> set (fst (reset_used m)). \<not> snd p"
  by (auto simp: reset_used_def used_flag_reset)

lemma EnforceCollectionState_synced:
  assumes "CurrentProgress st = Some tmap" and "APSynced st"
  shows "EnforceCollectionState st im =
    (let tmap1 = fold AList.delete (toRemoveGameKeys st im tmap) tmap;
         tmap2 = fst (add_granted im (GrantedItems st) tmap1);
         tmap3 = (if ReusableTetrominos st then fst (reset_used tmap2) else tmap2)
     in (st\<lparr>CurrentProgress := Some tmap3\<rparr>,
         map Remove (toRemoveGameKeys st im tmap) @
         snd (add_granted im (GrantedItems st) tmap1) @
         (if ReusableTetrominos st then snd (reset_used tmap2) else [])))"
  using assms
  by (simp add: EnforceCollectionState_def remove_keys_eq Let_def case_prod_beta)

lemma EnforceCollectionState_skipped:
  "CurrentProgress st = None \<or> \<not> APSynced st \<Longrightarrow> EnforceCollectionState st im = (st, [])"
  by (auto simp: EnforceCollectionState_def split: option.splits)

text \<open>The map after a pass that runs, key by key.\<close>

lemma map_of_after_pass:
  assumes "CurrentProgress st = Some tmap" and "APSynced st"
  shows "\<exists>tmap'. fst (EnforceCollectionState st im) = st\<lparr>CurrentProgress := Some tmap'\<rparr> \<and>
           (\<forall>k. map_of tmap' k =
              (case (if to_remove st im k then None else map_of tmap k) of
                 Some v \<Rightarrow> Some (if ReusableTetrominos st then False else v)
               | None \<Rightarrow> if k \<in> ToGameKey im ` set (GrantedItems st) then Some False else None))"
proof -
  let ?tmap1 = "fold AList.delete (toRemoveGameKeys st im tmap) tmap"
  let ?tmap2 = "fst (add_granted im (GrantedItems st) ?tmap1)"
  let ?tmap3 = "if ReusableTetrominos st then fst (reset_used ?tmap2) else ?tmap2"
  have "fst (EnforceCollectionState st im) = st\<lparr>CurrentProgress := Some ?tmap3\<rparr>"
    by (simp add: EnforceCollectionState_synced [OF assms] Let_def)
  moreover have "map_of ?tmap3 k =
      (case (if to_remove st im k then None else map_of tmap k) of
         Some v \<Rightarrow> Some (if ReusableTetrominos st then False else v)
       | None \<Rightarrow> if k \<in> ToGameKey im ` set (GrantedItems st) then Some False else None)" for k
    by (simp add: map_of_reset_used map_of_add_granted map_of_after_removal split: option.splits)
  ultimately show ?thesis
    by blast
qed


lemma tables_ignore_counts [simp]:
  "ToGameKey (im\<lparr>receivedCounts := counts\<rparr>) = ToGameKey im"
  "FromGameKey (im\<lparr>receivedCounts := counts\<rparr>) = FromGameKey im"
  "GetLocationId (im\<lparr>receivedCounts := counts\<rparr>) = GetLocationId im"
  by (simp_all add: fun_eq_iff ToGameKey_def FromGameKey_def GetLocationId_def)

lemma to_remove_ignores_counts [simp]:
  "to_remove st (im\<lparr>receivedCounts := counts\<rparr>) = to_remove st im"
  by (simp add: fun_eq_iff to_remove_def)

lemma Registry_game_keys_are_stars:
  "map_of (gameKeyToModId Registry) gameKey = Some modId \<Longrightarrow> IsStar modId"
proof -
  assume "map_of (gameKeyToModId Registry) gameKey = Some modId"
  then have "(gameKey, modId) \<in> set (gameKeyToModId Registry)"
    by (rule map_of_SomeD)
  moreover have "list_all (\<lambda>(k, m). IsStar m) (gameKeyToModId Registry)"
    unfolding Registry_gameKeyToModId by (simp add: IsStar_def)
  ultimately show ?thesis
    by (auto simp: list_all_iff)
qed

lemma Registry_lookupKey:
  "(if IsStar (FromGameKey Registry gameKey) then gameKey else FromGameKey Registry gameKey) = gameKey"
  by (auto simp: FromGameKey_def dest: Registry_game_keys_are_stars split: option.splits)

lemma Registry_empty_key_unknown: "GetLocationId Registry (FromGameKey Registry []) < 0"
proof -
  have "map_of (gameKeyToModId Registry) [] = None"
    unfolding Registry_gameKeyToModId by simp
  moreover have "[] \<notin> set (map fst BuildLocations)"
    unfolding BuildLocations_keys
    by (simp add: ALL_TETROMINOES_def ALL_PURPLE_SIGILS_def ALL_STARS_def)
  then have "map_of (locationNameToId Registry) [] = None"
    by (simp add: Registry_fields map_of_eq_None_iff)
  ultimately show ?thesis
    by (simp add: FromGameKey_def GetLocationId_def)
qed

text \<open>
  On the registry the membership test of the first loop is always made on the map key
  itself: a key that \<^verbatim>\<open>FromGameKey\<close> translates becomes a star ID, and for a star ID the
  loop looks the key up, not the translation.
\<close>

lemma to_remove_Registry:
  "to_remove st Registry gameKey \<longleftrightarrow>
     0 \<le> GetLocationId Registry (FromGameKey Registry gameKey) \<and>
     (IsPurpleSigil (FromGameKey Registry gameKey) \<longrightarrow> RandomisePurpleSigils st) \<and>
     (IsStar (FromGameKey Registry gameKey) \<longrightarrow> RandomiseStars st) \<and>
     gameKey \<notin> set (GrantedItems st)"
proof (cases "gameKey = []")
  case True
  then show ?thesis
    using Registry_empty_key_unknown by (simp add: to_remove_def)
next
  case False
  then show ?thesis
    by (auto simp: to_remove_def Let_def Registry_lookupKey)
qed


lemma to_remove_ignores_progress [simp]:
  "to_remove (st\<lparr>CurrentProgress := p\<rparr>) im = to_remove st im"
  by (simp add: fun_eq_iff to_remove_def)

lemma toRemoveGameKeys_ignores_progress [simp]:
  "toRemoveGameKeys (st\<lparr>CurrentProgress := p\<rparr>) im = toRemoveGameKeys st im"
  by (simp add: fun_eq_iff toRemoveGameKeys_def)

lemma toRemoveGameKeys_ignores_counts [simp]:
  "toRemoveGameKeys st (im\<lparr>receivedCounts := counts\<rparr>) = toRemoveGameKeys st im"
  by (simp add: fun_eq_iff toRemoveGameKeys_def)

lemma ensure_granted_ignores_counts [simp]:
  "ensure_granted (im\<lparr>receivedCounts := counts\<rparr>) = ensure_granted im"
  by (simp add: fun_eq_iff ensure_granted_def)

lemma add_granted_ignores_counts [simp]:
  "add_granted (im\<lparr>receivedCounts := counts\<rparr>) = add_granted im"
  by (simp add: fun_eq_iff add_granted_def)

lemma EnforceCollectionState_ignores_counts [simp]:
  "EnforceCollectionState st (im\<lparr>receivedCounts := counts\<rparr>) = EnforceCollectionState st im"
  by (cases "CurrentProgress st") (simp_all add: EnforceCollectionState_def)

text \<open>
  When does a second pass write nothing? Exactly when the second loop of the first pass has
  added no key that the first loop of the second pass takes away again.
\<close>

lemma second_pass_writes:
  assumes "CurrentProgress st = Some tmap" and "APSynced st"
  shows "snd (EnforceCollectionState (fst (EnforceCollectionState st im)) im) = [] \<longleftrightarrow>
           (\<forall>ident \<in> set (GrantedItems st). \<not> to_remove st im (ToGameKey im ident))"
proof -
  let ?G = "GrantedItems st"
  define tmap1 where "tmap1 = fold AList.delete (toRemoveGameKeys st im tmap) tmap"
  define tmap2 where "tmap2 = fst (add_granted im ?G tmap1)"
  define tmap3 where "tmap3 = (if ReusableTetrominos st then fst (reset_used tmap2) else tmap2)"
  define st2 where "st2 = st\<lparr>CurrentProgress := Some tmap3\<rparr>"
  have first: "fst (EnforceCollectionState st im) = st2"
    by (simp add: EnforceCollectionState_synced [OF assms] Let_def st2_def tmap3_def tmap2_def
          tmap1_def)
  have m3: "map_of tmap3 k =
      (case (if to_remove st im k then None else map_of tmap k) of
         Some v \<Rightarrow> Some (if ReusableTetrominos st then False else v)
       | None \<Rightarrow> if k \<in> ToGameKey im ` set ?G then Some False else None)" for k
    by (simp add: tmap3_def tmap2_def tmap1_def map_of_reset_used map_of_add_granted
          map_of_after_removal split: option.splits)
  have granted_present: "map_of tmap3 (ToGameKey im ident) \<noteq> None" if "ident \<in> set ?G" for ident
    using that by (auto simp: m3 split: option.splits)
  have keys3: "k \<in> ToGameKey im ` set ?G" if "k \<in> fst ` set tmap3" and "to_remove st im k" for k
  proof -
    have "map_of tmap3 k \<noteq> None"
      using that(1) by (simp only: map_of_eq_None_iff not_not)
    then show ?thesis
      using that(2) by (simp add: m3 split: if_splits)
  qed
  have unused: "ReusableTetrominos st \<Longrightarrow> \<forall>p \<in> set tmap3. \<not> snd p"
    using reset_used_values [of tmap2] by (simp add: tmap3_def)
  have st2: "CurrentProgress st2 = Some tmap3" "APSynced st2" "GrantedItems st2 = ?G"
    "ReusableTetrominos st2 = ReusableTetrominos st"
    "toRemoveGameKeys st2 im = toRemoveGameKeys st im"
    using assms(2) by (simp_all add: st2_def)
  have second: "snd (EnforceCollectionState st2 im) =
         map Remove (toRemoveGameKeys st im tmap3) @
         snd (add_granted im ?G (fold AList.delete (toRemoveGameKeys st im tmap3) tmap3)) @
         (if ReusableTetrominos st
          then snd (reset_used (fst (add_granted im ?G
                  (fold AList.delete (toRemoveGameKeys st im tmap3) tmap3))))
          else [])"
    by (simp add: EnforceCollectionState_synced [OF st2(1,2)] Let_def st2(3,4,5))
  show ?thesis
  proof
    assume "snd (EnforceCollectionState (fst (EnforceCollectionState st im)) im) = []"
    then have none: "toRemoveGameKeys st im tmap3 = []"
      unfolding first second by simp
    show "\<forall>ident \<in> set ?G. \<not> to_remove st im (ToGameKey im ident)"
    proof
      fix ident assume "ident \<in> set ?G"
      then have "ToGameKey im ident \<in> fst ` set tmap3"
        using granted_present [of ident] by (simp only: map_of_eq_None_iff not_not)
      then show "\<not> to_remove st im (ToGameKey im ident)"
        using none in_toRemoveGameKeys [of "ToGameKey im ident" st im tmap3] by auto
    qed
  next
    assume stable: "\<forall>ident \<in> set ?G. \<not> to_remove st im (ToGameKey im ident)"
    have "\<not> to_remove st im k" if k1: "k \<in> fst ` set tmap3" for k
    proof
      assume k2: "to_remove st im k"
      have "k \<in> ToGameKey im ` set ?G"
        using k1 k2 by (rule keys3)
      then obtain ident where i1: "ident \<in> set ?G" and i2: "k = ToGameKey im ident"
        by (rule imageE)
      have "\<not> to_remove st im (ToGameKey im ident)"
        using stable i1 by (rule bspec)
      then show False
        using k2 unfolding i2 by (rule notE)
    qed
    then have none: "toRemoveGameKeys st im tmap3 = []"
      by (simp add: toRemoveGameKeys_def filter_empty_conv)
    have adds: "add_granted im ?G tmap3 = (tmap3, [])"
      using granted_present by (intro add_granted_present) blast
    have resets: "ReusableTetrominos st \<Longrightarrow> reset_used tmap3 = (tmap3, [])"
      using unused by (intro reset_used_all_unused) simp
    show "snd (EnforceCollectionState (fst (EnforceCollectionState st im)) im) = []"
      unfolding first second using resets by (simp add: none adds)
  qed
qed


section \<open>Reconciliation\<close>

lemma GetLocationId_Registry:
  "GetLocationId Registry ident < 0 \<longleftrightarrow>
     ident \<notin> set (ALL_TETROMINOES @ ALL_PURPLE_SIGILS @ ALL_STARS)"
proof (cases "map_of BuildLocations ident")
  case None
  then have "ident \<notin> set (map fst BuildLocations)"
    by (simp add: map_of_eq_None_iff)
  then show ?thesis
    using None unfolding BuildLocations_keys by (simp add: GetLocationId_def Registry_fields)
next
  case (Some locId)
  then have mem: "(ident, locId) \<in> set BuildLocations"
    by (rule map_of_SomeD)
  then have "0 \<le> locId"
    using BuildLocations_nonneg by (auto simp: list_all_iff)
  moreover have "ident \<in> set (map fst BuildLocations)"
    using mem by (force simp: image_iff)
  ultimately show ?thesis
    using Some unfolding BuildLocations_keys by (simp add: GetLocationId_def Registry_fields)
qed

lemma GetLocationId_Registry_known:
  "0 \<le> GetLocationId Registry ident \<longleftrightarrow>
     ident \<in> set (ALL_TETROMINOES @ ALL_PURPLE_SIGILS @ ALL_STARS)"
  using GetLocationId_Registry [of ident] by linarith

lemma stored_skipped:
  "CurrentProgress st = None \<or> \<not> APSynced st \<Longrightarrow>
   stored (fst (EnforceCollectionState st im)) k = stored st k"
  by (simp add: EnforceCollectionState_skipped)

lemma stored_after_pass:
  assumes "CurrentProgress st \<noteq> None" and "APSynced st"
  shows "stored (fst (EnforceCollectionState st im)) k =
           (case (if to_remove st im k then None else stored st k) of
              Some v \<Rightarrow> Some (if ReusableTetrominos st then False else v)
            | None \<Rightarrow> if k \<in> ToGameKey im ` set (GrantedItems st) then Some False else None)"
proof -
  obtain tmap where t: "CurrentProgress st = Some tmap"
    using assms(1) by auto
  obtain tmap' where "fst (EnforceCollectionState st im) = st\<lparr>CurrentProgress := Some tmap'\<rparr>"
    and "\<forall>k. map_of tmap' k =
              (case (if to_remove st im k then None else map_of tmap k) of
                 Some v \<Rightarrow> Some (if ReusableTetrominos st then False else v)
               | None \<Rightarrow> if k \<in> ToGameKey im ` set (GrantedItems st) then Some False else None)"
    using map_of_after_pass [OF t assms(2), of im] by blast
  then show ?thesis
    by (simp add: stored_def t)
qed

text \<open>
  Claim C3 says that every map key whose translated ID is recognised but not in
  \<^verbatim>\<open>GrantedItems\<close> is gone after a pass. The key \<open>**5\<close> translates to the star \<open>SL5\<close>,
  which the registry knows and which is not granted; the first loop looks the key itself up
  for a star, finds \<open>**5\<close> granted and keeps the entry.
\<close>

theorem star_key_kept_counterexample:
  "0 \<le> GetLocationId Registry (FromGameKey Registry ''**5'') \<and>
   FromGameKey Registry ''**5'' \<notin> set (GrantedItems (synced_session [''**5''] [(''**5'', False)] False)) \<and>
   stored (fst (EnforceCollectionState (synced_session [''**5''] [(''**5'', False)] False) Registry))
     ''**5'' = Some False"
proof -
  let ?st = "synced_session [''**5''] [(''**5'', False)] False"
  have "stored (fst (EnforceCollectionState ?st Registry)) ''**5'' =
          (case (if to_remove ?st Registry ''**5'' then None else stored ?st ''**5'') of
             Some v \<Rightarrow> Some (if ReusableTetrominos ?st then False else v)
           | None \<Rightarrow> if ''**5'' \<in> ToGameKey Registry ` set (GrantedItems ?st)
                    then Some False else None)"
    by (rule stored_after_pass) simp_all
  then show ?thesis
    by (simp add: to_remove_Registry stored_def FromGameKey_def Registry_gameKeyToModId
          GetLocationId_Registry_known ALL_STARS_def)
qed

text \<open>
  Claim C3, amended. After one pass that runs (the map can be acquired and \<^verbatim>\<open>APSynced\<close>
  is set), every key whose translated ID the registry recognises, whose category is enabled,
  and which is itself neither in \<^verbatim>\<open>GrantedItems\<close> nor the game key of a granted ID has no
  entry: membership is tested on the map key, the form in which stars are granted, and
  for every other recognised key the key is its own translation. Every ID in
  \<^verbatim>\<open>GrantedItems\<close> has an entry under its game key. For Granted = {DJ1} and the map
  {DJ1: false, DJ2: false} the map becomes {DJ1: false}.
\<close>

theorem reconciliation_correctness:
  assumes "im = Registry\<lparr>receivedCounts := counts\<rparr>"
    and "CurrentProgress st \<noteq> None"
    and "APSynced st"
  shows "(\<forall>k. 0 \<le> GetLocationId im (FromGameKey im k) \<and>
              (IsPurpleSigil (FromGameKey im k) \<longrightarrow> RandomisePurpleSigils st) \<and>
              (IsStar (FromGameKey im k) \<longrightarrow> RandomiseStars st) \<and>
              k \<notin> set (GrantedItems st) \<and> k \<notin> ToGameKey im ` set (GrantedItems st)
              \<longrightarrow> stored (fst (EnforceCollectionState st im)) k = None) \<and>
         (\<forall>ident \<in> set (GrantedItems st).
              stored (fst (EnforceCollectionState st im)) (ToGameKey im ident) \<noteq> None) \<and>
         (GrantedItems st = [''DJ1''] \<and>
          CurrentProgress st = Some [(''DJ1'', False), (''DJ2'', False)]
          \<longrightarrow> CurrentProgress (fst (EnforceCollectionState st im)) = Some [(''DJ1'', False)])"
proof (intro conjI allI ballI impI)
  fix k
  assume "0 \<le> GetLocationId im (FromGameKey im k) \<and>
          (IsPurpleSigil (FromGameKey im k) \<longrightarrow> RandomisePurpleSigils st) \<and>
          (IsStar (FromGameKey im k) \<longrightarrow> RandomiseStars st) \<and>
          k \<notin> set (GrantedItems st) \<and> k \<notin> ToGameKey im ` set (GrantedItems st)"
  then have "to_remove st Registry k" and "k \<notin> ToGameKey Registry ` set (GrantedItems st)"
    by (simp_all add: assms(1) to_remove_Registry)
  then show "stored (fst (EnforceCollectionState st im)) k = None"
    by (simp add: assms(1) stored_after_pass [OF assms(2,3)])
next
  fix ident
  assume "ident \<in> set (GrantedItems st)"
  then show "stored (fst (EnforceCollectionState st im)) (ToGameKey im ident) \<noteq> None"
    by (auto simp: assms(1) stored_after_pass [OF assms(2,3)] split: option.splits)
next
  assume s: "GrantedItems st = [''DJ1''] \<and>
             CurrentProgress st = Some [(''DJ1'', False), (''DJ2'', False)]"
  have "to_remove st Registry ''DJ2''" and "\<not> to_remove st Registry ''DJ1''"
    by (simp_all add: s to_remove_Registry FromGameKey_def Registry_gameKeyToModId
          GetLocationId_Registry_known ALL_TETROMINOES_def IsPurpleSigil_def IsStar_def)
  then show "CurrentProgress (fst (EnforceCollectionState st im)) = Some [(''DJ1'', False)]"
    using s assms(3)
    by (simp add: assms(1) EnforceCollectionState_def toRemoveGameKeys_def remove_keys_def
          add_granted_def ensure_granted_def ToGameKey_def Registry_modIdToGameKey
          reset_used_def)
qed


theorem reconciliation_correctness_witness:
  "CurrentProgress (synced_session [''DJ1''] [(''DJ1'', False), (''DJ2'', False)] False) \<noteq> None \<and>
   APSynced (synced_session [''DJ1''] [(''DJ1'', False), (''DJ2'', False)] False) \<and>
   0 \<le> GetLocationId Registry (FromGameKey Registry ''DJ2'') \<and>
   \<not> IsPurpleSigil (FromGameKey Registry ''DJ2'') \<and> \<not> IsStar (FromGameKey Registry ''DJ2'') \<and>
   ''DJ2'' \<notin> set [''DJ1''] \<and> ''DJ2'' \<notin> ToGameKey Registry ` set [''DJ1''] \<and>
   stored (fst (EnforceCollectionState
                  (synced_session [''DJ1''] [(''DJ1'', False), (''DJ2'', False)] False)
                  (Registry\<lparr>receivedCounts := [(''DJ'', 1)]\<rparr>))) ''DJ2'' = None \<and>
   stored (fst (EnforceCollectionState
                  (synced_session [''DJ1''] [(''DJ1'', False), (''DJ2'', False)] False)
                  (Registry\<lparr>receivedCounts := [(''DJ'', 1)]\<rparr>))) (ToGameKey Registry ''DJ1'') \<noteq> None \<and>
   CurrentProgress (fst (EnforceCollectionState
                  (synced_session [''DJ1''] [(''DJ1'', False), (''DJ2'', False)] False)
                  (Registry\<lparr>receivedCounts := [(''DJ'', 1)]\<rparr>))) = Some [(''DJ1'', False)]"
proof -
  let ?st = "synced_session [''DJ1''] [(''DJ1'', False), (''DJ2'', False)] False"
  have h1: "CurrentProgress ?st \<noteq> None" and h2: "APSynced ?st"
    by simp_all
  have pre: "0 \<le> GetLocationId Registry (FromGameKey Registry ''DJ2'') \<and>
             \<not> IsPurpleSigil (FromGameKey Registry ''DJ2'') \<and>
             \<not> IsStar (FromGameKey Registry ''DJ2'') \<and>
             ''DJ2'' \<notin> set [''DJ1''] \<and> ''DJ2'' \<notin> ToGameKey Registry ` set [''DJ1'']"
    by (simp add: FromGameKey_def ToGameKey_def Registry_gameKeyToModId Registry_modIdToGameKey
          GetLocationId_Registry_known ALL_TETROMINOES_def IsPurpleSigil_def IsStar_def)
  show ?thesis
    using h1 h2 pre reconciliation_correctness [OF refl h1 h2, of "[(''DJ'', 1)]"]
    by simp
qed


text \<open>
  Claim C4 says that a second pass never writes. With the star \<open>SL5\<close> granted under its
  mod ID, the second loop keeps adding the key \<open>**5\<close> and the first loop of the next pass
  keeps removing it, because it looks for \<open>**5\<close> among the granted IDs.
\<close>

theorem mod_id_star_counterexample:
  "snd (EnforceCollectionState
          (fst (EnforceCollectionState (synced_session [''SL5''] [] False) Registry)) Registry)
     = [Remove ''**5'', Add ''**5'' False]"
proof -
  have first: "EnforceCollectionState (synced_session [''SL5''] [] False) Registry =
      (synced_session [''SL5''] [(''**5'', False)] False, [Add ''**5'' False])"
    by (simp add: EnforceCollectionState_def toRemoveGameKeys_def remove_keys_def add_granted_def
          ensure_granted_def ToGameKey_def Registry_modIdToGameKey Let_def)
  have "to_remove (synced_session [''SL5''] [(''**5'', False)] False) Registry ''**5''"
    by (simp add: to_remove_Registry FromGameKey_def Registry_gameKeyToModId
          GetLocationId_Registry_known ALL_STARS_def IsStar_def IsPurpleSigil_def)
  then have "EnforceCollectionState (synced_session [''SL5''] [(''**5'', False)] False) Registry =
      (synced_session [''SL5''] [(''**5'', False)] False, [Remove ''**5'', Add ''**5'' False])"
    by (simp add: EnforceCollectionState_def toRemoveGameKeys_def remove_keys_def add_granted_def
          ensure_granted_def ToGameKey_def Registry_modIdToGameKey Let_def)
  then show ?thesis
    by (simp add: first)
qed

text \<open>
  Claim C4, amended. When every ID in \<^verbatim>\<open>GrantedItems\<close> is held in the form of its game key
  (tetromino and sigil IDs, and stars as \<open>**N\<close>, the form the code grants them in), a second
  run of \<^verbatim>\<open>EnforceCollectionState\<close> on the state the first run left performs no
  \<^verbatim>\<open>Remove\<close>, no \<^verbatim>\<open>Add\<close> and no write of a used flag.
\<close>

theorem reconciliation_idempotence:
  assumes "im = Registry\<lparr>receivedCounts := counts\<rparr>"
    and "\<forall>ident \<in> set (GrantedItems st). ToGameKey im ident = ident"
  shows "snd (EnforceCollectionState (fst (EnforceCollectionState st im)) im) = []"
proof (cases "CurrentProgress st = None \<or> \<not> APSynced st")
  case True
  then show ?thesis
    by (simp add: EnforceCollectionState_skipped)
next
  case False
  then obtain tmap where t: "CurrentProgress st = Some tmap" and s: "APSynced st"
    by auto
  have "\<not> to_remove st Registry (ToGameKey Registry ident)" if "ident \<in> set (GrantedItems st)"
    for ident
  proof -
    have "ToGameKey Registry ident = ident"
      using assms(2) that by (simp add: assms(1))
    then show ?thesis
      using that by (simp add: to_remove_Registry)
  qed
  then show ?thesis
    using second_pass_writes [OF t s, of Registry] by (simp add: assms(1))
qed

theorem reconciliation_idempotence_witness:
  "ToGameKey (Registry\<lparr>receivedCounts := [(''DJ'', 1), (''**'', 5)]\<rparr>) ''DJ1'' = ''DJ1'' \<and>
   ToGameKey (Registry\<lparr>receivedCounts := [(''DJ'', 1), (''**'', 5)]\<rparr>) ''**5'' = ''**5'' \<and>
   snd (EnforceCollectionState
          (fst (EnforceCollectionState (synced_session [''DJ1'', ''**5''] [(''DJ2'', True)] True)
                  (Registry\<lparr>receivedCounts := [(''DJ'', 1), (''**'', 5)]\<rparr>)))
          (Registry\<lparr>receivedCounts := [(''DJ'', 1), (''**'', 5)]\<rparr>)) = []"
proof -
  have h: "\<forall>ident \<in> set (GrantedItems (synced_session [''DJ1'', ''**5''] [(''DJ2'', True)] True)).
             ToGameKey (Registry\<lparr>receivedCounts := [(''DJ'', 1), (''**'', 5)]\<rparr>) ident = ident"
    by (simp add: ToGameKey_def Registry_modIdToGameKey)
  have "snd (EnforceCollectionState
          (fst (EnforceCollectionState (synced_session [''DJ1'', ''**5''] [(''DJ2'', True)] True)
                  (Registry\<lparr>receivedCounts := [(''DJ'', 1), (''**'', 5)]\<rparr>)))
          (Registry\<lparr>receivedCounts := [(''DJ'', 1), (''**'', 5)]\<rparr>)) = []"
    using h by (rule reconciliation_idempotence [OF refl])
  then show ?thesis
    by (simp add: ToGameKey_def Registry_modIdToGameKey)
qed

text \<open>
  Claim C5 says that no entry with an unrecognised ID is ever modified, also with
  \<^verbatim>\<open>ReusableTetrominos\<close> on. The third loop resets the used flag of every entry of the
  map, whatever its key.
\<close>

theorem foreign_entry_reset_counterexample:
  "GetLocationId Registry (FromGameKey Registry ''XX9'') < 0 \<and>
   stored (synced_session [] [(''XX9'', True)] True) ''XX9'' = Some True \<and>
   stored (fst (EnforceCollectionState (synced_session [] [(''XX9'', True)] True) Registry)) ''XX9''
     = Some False"
  by (simp add: EnforceCollectionState_def toRemoveGameKeys_def remove_keys_def add_granted_def
        reset_used_def to_remove_Registry FromGameKey_def Registry_gameKeyToModId
        GetLocationId_Registry GetLocationId_Registry_known stored_def
        ALL_TETROMINOES_def ALL_PURPLE_SIGILS_def ALL_STARS_def)

text \<open>
  Claim C5, amended. \<^verbatim>\<open>EnforceCollectionState\<close> never removes an entry whose translated ID
  the registry does not recognise, and with \<^verbatim>\<open>ReusableTetrominos\<close> off it leaves the
  entry's used flag as it was; with \<^verbatim>\<open>ReusableTetrominos\<close> on, a pass that runs resets the
  used flag of every entry, recognised or not. A key with an unrecognised ID gets a new
  (unused) entry only when it is the game key of an ID in \<^verbatim>\<open>GrantedItems\<close>.
\<close>

theorem unrecognised_entries:
  assumes "GetLocationId im (FromGameKey im k) < 0"
  shows "stored (fst (EnforceCollectionState st im)) k =
           (case stored st k of
              Some v \<Rightarrow> Some (if APSynced st \<and> ReusableTetrominos st then False else v)
            | None \<Rightarrow> if CurrentProgress st \<noteq> None \<and> APSynced st \<and>
                         k \<in> ToGameKey im ` set (GrantedItems st)
                      then Some False else None)"
proof (cases "CurrentProgress st = None \<or> \<not> APSynced st")
  case True
  have "stored (fst (EnforceCollectionState st im)) k = stored st k"
    using True by (rule stored_skipped)
  then show ?thesis
    using True by (auto simp: stored_def split: option.splits)
next
  case False
  have "\<not> to_remove st im k"
    using assms by (simp add: to_remove_def)
  then show ?thesis
    using False by (simp add: stored_after_pass split: option.splits)
qed

theorem unrecognised_entries_witness:
  "GetLocationId Registry (FromGameKey Registry ''XX9'') < 0 \<and>
   stored (fst (EnforceCollectionState
                  (synced_session [''DJ1''] [(''XX9'', True), (''DJ2'', False)] False) Registry))
     ''XX9'' = Some True"
proof -
  have h: "GetLocationId Registry (FromGameKey Registry ''XX9'') < 0"
    by (simp add: FromGameKey_def Registry_gameKeyToModId GetLocationId_Registry
          ALL_TETROMINOES_def ALL_PURPLE_SIGILS_def ALL_STARS_def)
  show ?thesis
    using h unrecognised_entries [OF h, of "synced_session [''DJ1''] [(''XX9'', True), (''DJ2'', False)] False"]
    by (simp add: stored_def)
qed

section \<open>Granting and revoking\<close>

text \<open>
  Claim C8 says that \<^verbatim>\<open>GrantItem\<close> and \<^verbatim>\<open>RevokeItem\<close> leave \<^verbatim>\<open>CheckedLocations\<close>
  unchanged. \<^verbatim>\<open>RevokeItem\<close> erases the revoked ID from it.
\<close>

theorem revoke_unchecks_counterexample:
  "CheckedLocations ((synced_session [''DJ1''] [] False)\<lparr>CheckedLocations := [''DJ1'']\<rparr>) = [''DJ1''] \<and>
   CheckedLocations
     (RevokeItem ((synced_session [''DJ1''] [] False)\<lparr>CheckedLocations := [''DJ1'']\<rparr>) ''DJ1'') = []"
  by (simp add: RevokeItem_def)

text \<open>
  Claim C8, amended. \<^verbatim>\<open>GrantItem\<close> leaves \<^verbatim>\<open>CheckedLocations\<close> unchanged;
  \<^verbatim>\<open>RevokeItem\<close> removes the revoked ID from \<^verbatim>\<open>CheckedLocations\<close> and changes the
  checked status of no other ID.
\<close>

theorem checked_locations_frame:
  "CheckedLocations (GrantItem st ident) = CheckedLocations st \<and>
   set (CheckedLocations (RevokeItem st ident)) = set (CheckedLocations st) - {ident}"
  by (auto simp: GrantItem_def RevokeItem_def)
section \<open>Death link\<close>

text \<open>A delivery that teleports a mine onto a living player leaves the suppress flag set.\<close>

lemma ProcessPendingDeathLink_killed:
  assumes "PendingDeathLinkReceive st" and "pawnFound w" and "\<not> pawnIsDead w"
    and "haveLocation w" and "mineFound w" and "teleportOk w"
  shows "fst (ProcessPendingDeathLink st w) =
           st\<lparr>PendingDeathLinkReceive := False, IsDeathLinkDeath := True\<rparr>"
  using assms by (simp add: ProcessPendingDeathLink_def Let_def)

text \<open>
  \<^verbatim>\<open>ProcessPendingDeathLink\<close> writes neither \<^verbatim>\<open>DeathLinkEnabled\<close> nor
  \<^verbatim>\<open>PendingDeathLinkSend\<close>, and it keeps a suppress flag that is set unless it finds a
  mine for a living player and fails to move it.
\<close>

lemma ProcessPendingDeathLink_frame:
  "DeathLinkEnabled (fst (ProcessPendingDeathLink st w)) = DeathLinkEnabled st"
  "PendingDeathLinkSend (fst (ProcessPendingDeathLink st w)) = PendingDeathLinkSend st"
  by (simp_all add: ProcessPendingDeathLink_def Let_def)

lemma ProcessPendingDeathLink_keeps_flag:
  assumes "IsDeathLinkDeath st"
    and "\<not> (PendingDeathLinkReceive st \<and> pawnFound w \<and> \<not> pawnIsDead w \<and>
            haveLocation w \<and> mineFound w \<and> \<not> teleportOk w)"
  shows "IsDeathLinkDeath (fst (ProcessPendingDeathLink st w))"
  using assms by (auto simp add: ProcessPendingDeathLink_def Let_def)

text \<open>A tick leaves the outbound flag drained, whatever it found.\<close>

lemma ProcessDeathLinks_drains:
  "\<not> PendingDeathLinkSend (fst (ProcessDeathLinks apClient st w))"
  "DeathLinkEnabled (fst (ProcessDeathLinks apClient st w)) = DeathLinkEnabled st"
  by (simp_all add: ProcessDeathLinks_def ProcessPendingDeathLink_frame case_prod_beta)

lemma ProcessDeathLinks_sends:
  "fst (snd (ProcessDeathLinks apClient st w)) =
     (PendingDeathLinkSend st \<and> apClient \<and> DeathLinkEnabled st)"
  by (simp add: ProcessDeathLinks_def ProcessPendingDeathLink_frame case_prod_beta)

lemma ProcessDeathLinks_keeps_flag:
  assumes "IsDeathLinkDeath st"
    and "\<not> (DeathLinkEnabled st \<and> PendingDeathLinkReceive st \<and> pawnFound w \<and> \<not> pawnIsDead w \<and>
            haveLocation w \<and> mineFound w \<and> \<not> teleportOk w)"
  shows "IsDeathLinkDeath (fst (ProcessDeathLinks apClient st w))"
proof (cases "DeathLinkEnabled st")
  case True
  with assms have "IsDeathLinkDeath (fst (ProcessPendingDeathLink st w))"
    by (intro ProcessPendingDeathLink_keeps_flag) simp_all
  with True show ?thesis
    by (simp add: ProcessDeathLinks_def case_prod_beta)
next
  case False
  with assms(1) show ?thesis
    by (simp add: ProcessDeathLinks_def)
qed

text \<open>
  On an undisturbed schedule a suppress flag that is set, with the link enabled and nothing
  queued, is still set at the end, the link still enabled and nothing queued.
\<close>

lemma link_events_keep_flag:
  assumes "flag_undisturbed st es"
    and "DeathLinkEnabled st" and "IsDeathLinkDeath st" and "\<not> PendingDeathLinkSend st"
  shows "DeathLinkEnabled (link_events st es) \<and> IsDeathLinkDeath (link_events st es) \<and>
         \<not> PendingDeathLinkSend (link_events st es)"
  using assms
proof (induction st es rule: link_events.induct)
  case (1 st)
  then show ?case by simp
next
  case (2 st apClient w es)
  let ?st' = "fst (ProcessDeathLinks apClient st w)"
  from "2.prems" have calm: "flag_undisturbed ?st' es"
    and quiet: "\<not> (DeathLinkEnabled st \<and> PendingDeathLinkReceive st \<and> pawnFound w \<and>
                   \<not> pawnIsDead w \<and> haveLocation w \<and> mineFound w \<and> \<not> teleportOk w)"
    by simp_all
  have "IsDeathLinkDeath ?st'"
    using "2.prems"(3) quiet by (rule ProcessDeathLinks_keeps_flag)
  moreover have "DeathLinkEnabled ?st'" and "\<not> PendingDeathLinkSend ?st'"
    using "2.prems"(2) by (simp_all add: ProcessDeathLinks_drains)
  ultimately show ?case
    using "2.IH" [OF calm] by simp
next
  case (3 st f es)
  from "3.prems" have "flag_undisturbed (f st) es" and "DeathLinkEnabled (f st)"
    and "IsDeathLinkDeath (f st)" and "\<not> PendingDeathLinkSend (f st)"
    by simp_all
  then show ?case
    using "3.IH" by simp
qed

text \<open>
  Claim C6 says that a death observed by the hook while the suppress flag is set queues no
  send and clears the flag, and that hence a death inflicted by an inbound delivery never
  leads to a send. Neither holds throughout. The hook returns before it looks at the flag when
  \<^verbatim>\<open>DeathLinkEnabled\<close> is off: nothing is queued, and the flag stays set. And the flag is
  one bit for all deliveries: a delivery moves a mine onto the player and sets it; before
  the death is seen a second link is pending and the tick that handles it finds the mine but
  cannot move it, so \<^verbatim>\<open>ProcessPendingDeathLink\<close> clears the flag; the hook then queues the
  inflicted death and the next tick sends it.
\<close>

theorem echo_suppression_counterexample:
  "IsDeathLinkDeath (link_session False True False False) \<and>
   IsDeathLinkDeath (SetDeath_hook (link_session False True False False)) \<and>
   fst (ProcessDeathLinks True (link_session True False False True) mine_at_hand) =
     link_session True True False False \<and>
   \<not> IsDeathLinkDeath (fst (ProcessDeathLinks True (link_session True True False True) mine_stuck)) \<and>
   PendingDeathLinkSend
     (SetDeath_hook (fst (ProcessDeathLinks True (link_session True True False True) mine_stuck))) \<and>
   fst (snd (ProcessDeathLinks True
               (SetDeath_hook
                  (fst (ProcessDeathLinks True (link_session True True False True) mine_stuck)))
               player_dead))"
  by (simp add: SetDeath_hook_def ProcessDeathLinks_def ProcessPendingDeathLink_def Let_def)

text \<open>
  Claim C6, amended. If the suppress flag \<^verbatim>\<open>IsDeathLinkDeath\<close> is set when the death hook
  runs, the hook never sets \<^verbatim>\<open>PendingDeathLinkSend\<close>; with \<^verbatim>\<open>DeathLinkEnabled\<close> on it
  clears the flag in that one call, so that the next death it sees is queued, and with
  \<^verbatim>\<open>DeathLinkEnabled\<close> off it leaves the whole state, flag included, as it was. Hence,
  with the link enabled, after an inbound delivery that moves a mine onto the living player
  and any undisturbed schedule of further ticks and writes (no tick handles a further inbound
  link by finding a mine and failing to move it, and no write elsewhere touches
  \<^verbatim>\<open>DeathLinkEnabled\<close>, \<^verbatim>\<open>IsDeathLinkDeath\<close> or \<^verbatim>\<open>PendingDeathLinkSend\<close>), the flag is
  still set, the first death the hook then sees queues no send and consumes the flag, and
  the tick after it sends nothing.
\<close>

theorem link_echo_suppression:
  "(IsDeathLinkDeath st \<longrightarrow>
      PendingDeathLinkSend (SetDeath_hook st) = PendingDeathLinkSend st \<and>
      (DeathLinkEnabled st \<longrightarrow>
         \<not> IsDeathLinkDeath (SetDeath_hook st) \<and>
         PendingDeathLinkSend (SetDeath_hook (SetDeath_hook st))) \<and>
      (\<not> DeathLinkEnabled st \<longrightarrow> SetDeath_hook st = st)) \<and>
   (DeathLinkEnabled st0 \<and> PendingDeathLinkReceive st0 \<and>
    pawnFound w \<and> \<not> pawnIsDead w \<and> haveLocation w \<and> mineFound w \<and> teleportOk w \<and>
    flag_undisturbed st0 (Tick apClient w # es) \<longrightarrow>
      IsDeathLinkDeath (link_events st0 (Tick apClient w # es)) \<and>
      \<not> PendingDeathLinkSend (SetDeath_hook (link_events st0 (Tick apClient w # es))) \<and>
      \<not> IsDeathLinkDeath (SetDeath_hook (link_events st0 (Tick apClient w # es))) \<and>
      \<not> fst (snd (ProcessDeathLinks apClient'
                     (SetDeath_hook (link_events st0 (Tick apClient w # es))) w')))"
proof (intro conjI impI)
  assume "IsDeathLinkDeath st"
  then show "PendingDeathLinkSend (SetDeath_hook st) = PendingDeathLinkSend st"
    by (simp add: SetDeath_hook_def)
next
  assume "IsDeathLinkDeath st" and "DeathLinkEnabled st"
  then show "\<not> IsDeathLinkDeath (SetDeath_hook st)"
    by (simp add: SetDeath_hook_def)
next
  assume "IsDeathLinkDeath st" and "DeathLinkEnabled st"
  then show "PendingDeathLinkSend (SetDeath_hook (SetDeath_hook st))"
    by (simp add: SetDeath_hook_def)
next
  assume "\<not> DeathLinkEnabled st"
  then show "SetDeath_hook st = st"
    by (simp add: SetDeath_hook_def)
next
  assume a: "DeathLinkEnabled st0 \<and> PendingDeathLinkReceive st0 \<and>
             pawnFound w \<and> \<not> pawnIsDead w \<and> haveLocation w \<and> mineFound w \<and> teleportOk w \<and>
             flag_undisturbed st0 (Tick apClient w # es)"
  define d where "d = fst (ProcessDeathLinks apClient st0 w)"
  define st1 where "st1 = link_events st0 (Tick apClient w # es)"
  have st1: "st1 = link_events d es"
    by (simp add: st1_def d_def)
  have "fst (ProcessPendingDeathLink st0 w) =
          st0\<lparr>PendingDeathLinkReceive := False, IsDeathLinkDeath := True\<rparr>"
    using a by (intro ProcessPendingDeathLink_killed) simp_all
  with a have delivered: "IsDeathLinkDeath d"
    by (simp add: d_def ProcessDeathLinks_def case_prod_beta)
  have enabled: "DeathLinkEnabled d" and drained: "\<not> PendingDeathLinkSend d"
    using a by (simp_all add: d_def ProcessDeathLinks_drains)
  from a have "flag_undisturbed d es"
    by (simp add: d_def)
  then have kept: "DeathLinkEnabled st1 \<and> IsDeathLinkDeath st1 \<and> \<not> PendingDeathLinkSend st1"
    unfolding st1 using enabled delivered drained by (rule link_events_keep_flag)
  have hook: "SetDeath_hook st1 = st1\<lparr>IsDeathLinkDeath := False\<rparr>"
    using kept by (simp add: SetDeath_hook_def)
  show "IsDeathLinkDeath (link_events st0 (Tick apClient w # es))"
    using kept by (simp add: st1_def)
  show "\<not> PendingDeathLinkSend (SetDeath_hook (link_events st0 (Tick apClient w # es)))"
    using kept hook by (simp add: st1_def)
  show "\<not> IsDeathLinkDeath (SetDeath_hook (link_events st0 (Tick apClient w # es)))"
    using hook by (simp add: st1_def)
  show "\<not> fst (snd (ProcessDeathLinks apClient'
                      (SetDeath_hook (link_events st0 (Tick apClient w # es))) w'))"
    using kept hook by (simp add: st1_def ProcessDeathLinks_sends)
qed

theorem link_echo_suppression_witness:
  "IsDeathLinkDeath (link_session True True False False) \<and>
   DeathLinkEnabled (link_session True True False False) \<and>
   \<not> PendingDeathLinkSend (SetDeath_hook (link_session True True False False)) \<and>
   \<not> IsDeathLinkDeath (SetDeath_hook (link_session True True False False)) \<and>
   PendingDeathLinkSend (SetDeath_hook (SetDeath_hook (link_session True True False False))) \<and>
   IsDeathLinkDeath (link_session False True False False) \<and>
   \<not> DeathLinkEnabled (link_session False True False False) \<and>
   SetDeath_hook (link_session False True False False) = link_session False True False False \<and>
   DeathLinkEnabled (link_session True False False True) \<and>
   PendingDeathLinkReceive (link_session True False False True) \<and>
   flag_undisturbed (link_session True False False True) (Tick True mine_at_hand # second_link) \<and>
   IsDeathLinkDeath
     (link_events (link_session True False False True) (Tick True mine_at_hand # second_link)) \<and>
   \<not> PendingDeathLinkSend
       (SetDeath_hook
          (link_events (link_session True False False True)
             (Tick True mine_at_hand # second_link))) \<and>
   \<not> IsDeathLinkDeath
       (SetDeath_hook
          (link_events (link_session True False False True)
             (Tick True mine_at_hand # second_link))) \<and>
   \<not> fst (snd (ProcessDeathLinks True
                  (SetDeath_hook
                     (link_events (link_session True False False True)
                        (Tick True mine_at_hand # second_link)))
                  player_dead))"
proof -
  note on = link_echo_suppression [where st = "link_session True True False False"
      and ?st0.0 = "link_session True False False True" and w = mine_at_hand
      and apClient = True and es = second_link and apClient' = True and w' = player_dead]
  note off = link_echo_suppression [where st = "link_session False True False False"
      and ?st0.0 = "link_session True False False True" and w = mine_at_hand
      and apClient = True and es = second_link and apClient' = True and w' = player_dead]
  have calm: "flag_undisturbed (link_session True False False True)
                (Tick True mine_at_hand # second_link)"
    by (simp add: ProcessDeathLinks_def ProcessPendingDeathLink_def Let_def)
  have "IsDeathLinkDeath (link_session False True False False) \<and>
        \<not> DeathLinkEnabled (link_session False True False False) \<and>
        SetDeath_hook (link_session False True False False) = link_session False True False False"
    using off by simp
  moreover have "IsDeathLinkDeath (link_session True True False False) \<and>
        DeathLinkEnabled (link_session True True False False) \<and>
        \<not> PendingDeathLinkSend (SetDeath_hook (link_session True True False False)) \<and>
        \<not> IsDeathLinkDeath (SetDeath_hook (link_session True True False False)) \<and>
        PendingDeathLinkSend (SetDeath_hook (SetDeath_hook (link_session True True False False)))"
    using on by simp
  moreover have "DeathLinkEnabled (link_session True False False True) \<and>
        PendingDeathLinkReceive (link_session True False False True)"
    by simp
  moreover have "IsDeathLinkDeath
          (link_events (link_session True False False True)
             (Tick True mine_at_hand # second_link)) \<and>
        \<not> PendingDeathLinkSend
            (SetDeath_hook
               (link_events (link_session True False False True)
                  (Tick True mine_at_hand # second_link))) \<and>
        \<not> IsDeathLinkDeath
            (SetDeath_hook
               (link_events (link_session True False False True)
                  (Tick True mine_at_hand # second_link))) \<and>
        \<not> fst (snd (ProcessDeathLinks True
                       (SetDeath_hook
                          (link_events (link_session True False False True)
                             (Tick True mine_at_hand # second_link)))
                       player_dead))"
    using on calm by (simp del: flag_undisturbed.simps link_events.simps)
  ultimately show ?thesis
    using calm by (simp only: simp_thms)
qed


section \<open>The visibility loop\<close>

text \<open>
  The argument is a count: for an ID with target presentation \<open>t\<close>, at most one call is
  still owed, and only while the table does not hold \<open>t\<close>. Every call made for the ID pays
  that debt.
\<close>

lemma calls_for_append [simp]:
  "calls_for ident (xs @ ys) = calls_for ident xs @ calls_for ident ys"
  by (simp add: calls_for_def)

lemma calls_for_Nil [simp]: "calls_for ident [] = []"
  by (simp add: calls_for_def)

lemma visit_item_owed:
  assumes "target_presentation coll ident = t"
  shows "\<exists>new. snd (visit_item coll item (vs, calls)) = calls @ new \<and>
           length (calls_for ident new) +
             (if t = None \<or> VisibilityApplied (fst (visit_item coll item (vs, calls))) ident = t
              then 0 else 1)
           \<le> (if t = None \<or> VisibilityApplied vs ident = t then 0 else (1::nat))"
proof (cases "item_IsValid item \<and> item_id item \<noteq> None")
  case False
  then show ?thesis
    by (auto simp: visit_item_def split: option.splits)
next
  case True
  then obtain other where o: "item_id item = Some other" and v: "item_IsValid item"
    by auto
  show ?thesis
  proof (cases "other = ident")
    case True
    then show ?thesis
      using assms o v
      by (auto simp: visit_item_def target_presentation_def calls_for_def Let_def
            split: if_splits)
  next
    case False
    then show ?thesis
      using assms o v
      by (auto simp: visit_item_def calls_for_def Let_def)
  qed
qed

lemma fold_visit_item_owed:
  assumes "target_presentation coll ident = t"
  shows "\<exists>new. snd (fold (visit_item coll) items (vs, calls)) = calls @ new \<and>
           length (calls_for ident new) +
             (if t = None \<or> VisibilityApplied (fst (fold (visit_item coll) items (vs, calls))) ident = t
              then 0 else 1)
           \<le> (if t = None \<or> VisibilityApplied vs ident = t then 0 else (1::nat))"
proof (induction items arbitrary: vs calls)
  case Nil
  then show ?case by simp
next
  case (Cons item items)
  obtain vs1 calls1 where step: "visit_item coll item (vs, calls) = (vs1, calls1)"
    by (cases "visit_item coll item (vs, calls)") auto
  obtain new1 where n1: "calls1 = calls @ new1"
    and d1: "length (calls_for ident new1) +
               (if t = None \<or> VisibilityApplied vs1 ident = t then 0 else 1)
             \<le> (if t = None \<or> VisibilityApplied vs ident = t then 0 else (1::nat))"
    using visit_item_owed [OF assms, of item vs calls] by (auto simp: step)
  obtain new2 where n2: "snd (fold (visit_item coll) items (vs1, calls1)) = calls1 @ new2"
    and d2: "length (calls_for ident new2) +
               (if t = None \<or>
                   VisibilityApplied (fst (fold (visit_item coll) items (vs1, calls1))) ident = t
                then 0 else 1)
             \<le> (if t = None \<or> VisibilityApplied vs1 ident = t then 0 else (1::nat))"
    using Cons.IH [of vs1 calls1] by auto
  have "snd (fold (visit_item coll) (item # items) (vs, calls)) = calls @ (new1 @ new2)"
    using n2 by (simp add: step n1)
  moreover have "length (calls_for ident (new1 @ new2)) +
               (if t = None \<or>
                   VisibilityApplied (fst (fold (visit_item coll) (item # items) (vs, calls))) ident = t
                then 0 else 1)
             \<le> (if t = None \<or> VisibilityApplied vs ident = t then 0 else (1::nat))"
    using d1 d2 by (simp add: step)
  ultimately show ?case
    by blast
qed

lemma visibility_iteration_owed:
  assumes "target_presentation coll ident = t"
  shows "length (calls_for ident (snd (visibility_iteration cooldown coll items vs))) +
           (if t = None \<or>
               VisibilityApplied (fst (visibility_iteration cooldown coll items vs)) ident = t
            then 0 else 1)
         \<le> (if t = None \<or> VisibilityApplied vs ident = t then 0 else (1::nat))"
proof (cases "cooldown > 0")
  case True
  then show ?thesis
    by (simp add: visibility_iteration_def)
next
  case False
  then show ?thesis
    using fold_visit_item_owed [OF assms, of items vs "[]"]
    by (auto simp: visibility_iteration_def)
qed

lemma visibility_iterations_owed:
  assumes "\<forall>run \<in> set runs. target_presentation (fst (snd run)) ident = t"
  shows "length (calls_for ident (snd (visibility_iterations runs vs))) +
           (if t = None \<or> VisibilityApplied (fst (visibility_iterations runs vs)) ident = t
            then 0 else 1)
         \<le> (if t = None \<or> VisibilityApplied vs ident = t then 0 else (1::nat))"
  using assms
proof (induction runs arbitrary: vs)
  case Nil
  then show ?case by simp
next
  case (Cons run runs)
  obtain cooldown coll items where r: "run = (cooldown, coll, items)"
    by (cases run) auto
  have tc: "target_presentation coll ident = t"
    using Cons.prems by (simp add: r)
  let ?vs1 = "fst (visibility_iteration cooldown coll items vs)"
  have d1: "length (calls_for ident (snd (visibility_iteration cooldown coll items vs))) +
           (if t = None \<or> VisibilityApplied ?vs1 ident = t then 0 else 1)
         \<le> (if t = None \<or> VisibilityApplied vs ident = t then 0 else (1::nat))"
    by (rule visibility_iteration_owed [OF tc])
  have d2: "length (calls_for ident (snd (visibility_iterations runs ?vs1))) +
           (if t = None \<or> VisibilityApplied (fst (visibility_iterations runs ?vs1)) ident = t
            then 0 else 1)
         \<le> (if t = None \<or> VisibilityApplied ?vs1 ident = t then 0 else (1::nat))"
    using Cons.prems by (intro Cons.IH) simp
  show ?case
    using d1 d2 by (simp add: r case_prod_beta Let_def)
qed

text \<open>An iteration that meets a valid actor with the ID leaves nothing owed for it.\<close>

lemma visit_item_settles:
  assumes "target_presentation coll ident = t" and "item_IsValid item" and "item_id item = Some ident"
  shows "t = None \<or> VisibilityApplied (fst (visit_item coll item (vs, calls))) ident = t"
  using assms
  by (auto simp: visit_item_def target_presentation_def Let_def split: if_splits)

lemma fold_visit_item_settles:
  assumes "target_presentation coll ident = t"
    and "\<exists>item \<in> set items. item_IsValid item \<and> item_id item = Some ident"
  shows "t = None \<or> VisibilityApplied (fst (fold (visit_item coll) items (vs, calls))) ident = t"
proof -
  from assms(2) obtain item where i: "item \<in> set items" "item_IsValid item" "item_id item = Some ident"
    by blast
  then obtain before after where split: "items = before @ item # after"
    by (auto dest: split_list)
  obtain vs0 calls0 where b: "fold (visit_item coll) before (vs, calls) = (vs0, calls0)"
    by (cases "fold (visit_item coll) before (vs, calls)") auto
  obtain vs1 calls1 where s: "visit_item coll item (vs0, calls0) = (vs1, calls1)"
    by (cases "visit_item coll item (vs0, calls0)") auto
  have settled: "t = None \<or> VisibilityApplied vs1 ident = t"
    using visit_item_settles [OF assms(1) i(2,3), of vs0 calls0] by (simp add: s)
  have "length (calls_for ident (snd (fold (visit_item coll) after (vs1, calls1))) ) \<ge> 0"
    by simp
  obtain new where "snd (fold (visit_item coll) after (vs1, calls1)) = calls1 @ new"
    and "length (calls_for ident new) +
           (if t = None \<or> VisibilityApplied (fst (fold (visit_item coll) after (vs1, calls1))) ident = t
            then 0 else 1)
         \<le> (if t = None \<or> VisibilityApplied vs1 ident = t then 0 else (1::nat))"
    using fold_visit_item_owed [OF assms(1), of after vs1 calls1] by blast
  then have "t = None \<or> VisibilityApplied (fst (fold (visit_item coll) after (vs1, calls1))) ident = t"
    using settled by (auto split: if_splits)
  then show ?thesis
    by (simp add: split b s)
qed


text \<open>
  Claim C9. Take any number of consecutive iterations of the visibility loop, whatever
  actors each one finds, in which the answers of \<^verbatim>\<open>Collection\<close> give an ID the same
  target presentation \<open>t\<close> (visible, hidden or none). Over all of them together at most one
  \<^verbatim>\<open>SetTetrominoVisible\<close> or \<^verbatim>\<open>SetTetrominoHidden\<close> call is made for that ID; and after
  an iteration that ran and met a valid actor with the ID, the iterations that follow make
  no call for it at all.
\<close>

theorem visibility_non_thrash:
  assumes "\<forall>(cooldown, coll, items) \<in> set runs. target_presentation coll ident = t"
  shows "length (calls_for ident (snd (visibility_iterations runs vs))) \<le> 1 \<and>
         (cooldown \<le> 0 \<and> target_presentation coll ident = t \<and>
          (\<exists>item \<in> set items. item_IsValid item \<and> item_id item = Some ident)
          \<longrightarrow> calls_for ident
                (snd (visibility_iterations runs
                       (fst (visibility_iteration cooldown coll items vs)))) = [])"
proof -
  have same: "\<forall>run \<in> set runs. target_presentation (fst (snd run)) ident = t"
    using assms by (auto simp: case_prod_beta)
  have total: "length (calls_for ident (snd (visibility_iterations runs vs))) \<le> 1"
    using visibility_iterations_owed [OF same, of vs] by (auto split: if_splits)
  have later: "calls_for ident
                (snd (visibility_iterations runs
                       (fst (visibility_iteration cooldown coll items vs)))) = []"
    if "cooldown \<le> 0" and tc: "target_presentation coll ident = t"
      and met: "\<exists>item \<in> set items. item_IsValid item \<and> item_id item = Some ident"
  proof -
    let ?vs1 = "fst (visibility_iteration cooldown coll items vs)"
    have "?vs1 = fst (fold (visit_item coll) items (vs, []))"
      using that(1) by (simp add: visibility_iteration_def)
    then have "t = None \<or> VisibilityApplied ?vs1 ident = t"
      using fold_visit_item_settles [OF tc met, of vs "[]"] by simp
    then show ?thesis
      using visibility_iterations_owed [OF same, of ?vs1] by (auto split: if_splits)
  qed
  show ?thesis
    using total later by blast
qed

theorem visibility_non_thrash_witness:
  "target_presentation all_collectable ''DJ1'' = Some Visible \<and>
   snd (visibility_iteration 0 all_collectable [actor_DJ1] fresh_loop)
     = [SetTetrominoVisible actor_DJ1] \<and>
   length (calls_for ''DJ1''
             (snd (visibility_iterations
                     [(0, all_collectable, [actor_DJ1]), (0, all_collectable, [actor_DJ1])]
                     fresh_loop))) \<le> 1 \<and>
   calls_for ''DJ1''
     (snd (visibility_iterations
             [(0, all_collectable, [actor_DJ1]), (0, all_collectable, [actor_DJ1])]
             (fst (visibility_iteration 0 all_collectable [actor_DJ1] fresh_loop)))) = []"
proof -
  have t: "target_presentation all_collectable ''DJ1'' = Some Visible"
    by (simp add: target_presentation_def)
  have h: "\<forall>(cooldown, coll, items) \<in>
               set [(0, all_collectable, [actor_DJ1]), (0, all_collectable, [actor_DJ1])].
             target_presentation coll ''DJ1'' = Some Visible"
    by (simp add: target_presentation_def)
  have first: "snd (visibility_iteration 0 all_collectable [actor_DJ1] fresh_loop)
      = [SetTetrominoVisible actor_DJ1]"
    by (simp add: visibility_iteration_def visit_item_def)
  have met: "(0::int) \<le> 0 \<and> target_presentation all_collectable ''DJ1'' = Some Visible \<and>
             (\<exists>item \<in> set [actor_DJ1]. item_IsValid item \<and> item_id item = Some ''DJ1'')"
    by (simp add: target_presentation_def)
  note th = visibility_non_thrash [OF h, of fresh_loop 0 all_collectable "[actor_DJ1]"]
  have "length (calls_for ''DJ1''
             (snd (visibility_iterations
                     [(0, all_collectable, [actor_DJ1]), (0, all_collectable, [actor_DJ1])]
                     fresh_loop))) \<le> 1"
    using th by (rule conjunct1)
  moreover have "calls_for ''DJ1''
     (snd (visibility_iterations
             [(0, all_collectable, [actor_DJ1]), (0, all_collectable, [actor_DJ1])]
             (fst (visibility_iteration 0 all_collectable [actor_DJ1] fresh_loop)))) = []"
    using th [THEN conjunct2] met by (rule mp)
  ultimately show ?thesis
    using t first by (simp only: simp_thms)
qed

end
